theory Spec2Isabelle
  imports Main
begin

section \<open>Strings and characters\<close>

text \<open>
  A JavaScript string is modelled as a list of code units (\<open>string\<close>).  Case conversion
  is the ASCII one (\<open>A\<close>--\<open>Z\<close> against \<open>a\<close>--\<open>z\<close>); every other code unit is left
  alone.  For the regular expressions of the source this is exact: without the \<open>u\<close> flag
  only ASCII letters are identified with ASCII letters by the \<open>i\<close> flag.
\<close>

definition toLowerChar :: "char \<Rightarrow> char" where
  "toLowerChar c =
     (let n = (of_char c :: nat) in if 65 \<le> n \<and> n \<le> 90 then char_of (n + 32) else c)"

definition toUpperChar :: "char \<Rightarrow> char" where
  "toUpperChar c =
     (let n = (of_char c :: nat) in if 97 \<le> n \<and> n \<le> 122 then char_of (n - 32) else c)"

definition toLowerCase :: "string \<Rightarrow> string" where
  "toLowerCase s = map toLowerChar s"

definition toUpperCase :: "string \<Rightarrow> string" where
  "toUpperCase s = map toUpperChar s"

text \<open>\<open>xs.join(sep)\<close>\<close>

fun joinWith :: "string \<Rightarrow> string list \<Rightarrow> string" where
  "joinWith sep [] = []"
| "joinWith sep [x] = x"
| "joinWith sep (x # y # ys) = x @ sep @ joinWith sep (y # ys)"

section \<open>Variant generation\<close>

datatype error = TypeError

text \<open>
  \<open>splitIntoWords\<close>: only the word \<open>opencode\<close> (in any letter case) is split.
\<close>

definition splitIntoWords :: "string \<Rightarrow> string list" where
  "splitIntoWords target =
     (if toLowerCase target = ''opencode'' then [''open'', ''code''] else [target])"

text \<open>
  \<open>capitalize = (w) => w[0].toUpperCase() + w.slice(1).toLowerCase()\<close>.  On the empty
  string \<open>w[0]\<close> is \<open>undefined\<close> and the method call throws a \<open>TypeError\<close>.
\<close>

definition capitalize :: "string \<Rightarrow> error + string" where
  "capitalize w =
     (case w of [] \<Rightarrow> Inl TypeError
      | c # cs \<Rightarrow> Inr (toUpperChar c # toLowerCase cs))"

text \<open>\<open>xs.map(f)\<close> for a callback that may throw: the first exception ends the map.\<close>

fun mapE :: "('a \<Rightarrow> error + 'b) \<Rightarrow> 'a list \<Rightarrow> error + 'b list" where
  "mapE f [] = Inr []"
| "mapE f (x # xs) =
     (case f x of Inl e \<Rightarrow> Inl e
      | Inr y \<Rightarrow> (case mapE f xs of Inl e \<Rightarrow> Inl e | Inr ys \<Rightarrow> Inr (y # ys)))"

text \<open>
  \<open>generateCaseVariants\<close>.  The elements of the array literal are evaluated in order, so
  the two \<open>map(capitalize)\<close> calls run first and either may throw.  \<open>lower[0]\<close> of an empty
  decomposition is \<open>undefined\<close>, which string concatenation renders as \<open>undefined\<close>.
\<close>

definition generateCaseVariants :: "string list \<Rightarrow> error + string list" where
  "generateCaseVariants words =
     (let lower = map toLowerCase words;
          upper = map toUpperCase words
      in case mapE capitalize (drop 1 words) of
           Inl e \<Rightarrow> Inl e
         | Inr capsTail \<Rightarrow>
             (case mapE capitalize words of
                Inl e \<Rightarrow> Inl e
              | Inr caps \<Rightarrow>
                  Inr [ (case lower of [] \<Rightarrow> ''undefined'' | l0 # _ \<Rightarrow> l0)
                          @ joinWith [] capsTail,
                        joinWith [] caps,
                        joinWith ''-'' lower,
                        joinWith ''_'' lower,
                        joinWith ''_'' upper,
                        joinWith ''-'' upper,
                        joinWith ''.'' lower ]))"

section \<open>Matchers\<close>

text \<open>
  The matchers the program builds are alternations of literal strings, with or without
  the \<open>i\<close> flag, always with the \<open>g\<close> flag.  A compiled matcher is the list of its
  alternatives, in the order of the pattern, and the \<open>i\<close> flag.
\<close>

datatype regex = Regex (alts: "string list") (ignoreCase: bool)

definition backslash :: char where "backslash = CHR 0x5C"
definition backtick :: char where "backtick = CHR 0x60"

text \<open>The class \<open>[.*+?^${}()|[\]\\]\<close> of \<open>buildVariantRegex\<close>.\<close>

definition isMeta :: "char \<Rightarrow> bool" where
  "isMeta c = (c \<in> set ''.*+?^${}()|[]'' \<or> c = backslash)"

text \<open>\<open>v.replace(/[.*+?^${}()|[\]\\]/g, "\\$&")\<close>: a backslash in front of every metacharacter.\<close>

definition escapeRegex :: "string \<Rightarrow> string" where
  "escapeRegex v = concat (map (\<lambda>c. if isMeta c then [backslash, c] else [c]) v)"

text \<open>
  \<open>new RegExp(pattern, flags)\<close> for the fragment of the pattern language the program
  produces: \<open>|\<close> separates alternatives, a backslash followed by a metacharacter is that
  character, and any other character that is not a metacharacter is itself.  A pattern
  outside the fragment gives \<open>None\<close>.
\<close>

fun parseAlts :: "string \<Rightarrow> string \<Rightarrow> string list option" where
  "parseAlts cur [] = Some [cur]"
| "parseAlts cur [c] =
     (if isMeta c then (if c = CHR ''|'' then Some [cur, []] else None)
      else Some [cur @ [c]])"
| "parseAlts cur (c # d # ds) =
     (if c = backslash then (if isMeta d then parseAlts (cur @ [d]) ds else None)
      else if c = CHR ''|'' then map_option (Cons cur) (parseAlts [] (d # ds))
      else if isMeta c then None
      else parseAlts (cur @ [c]) (d # ds))"

definition newRegExp :: "string \<Rightarrow> bool \<Rightarrow> regex option" where
  "newRegExp pattern icase = map_option (\<lambda>as. Regex as icase) (parseAlts [] pattern)"

definition buildVariantRegex :: "string list \<Rightarrow> regex option" where
  "buildVariantRegex variants = newRegExp (joinWith ''|'' (map escapeRegex variants)) False"

text \<open>\<open>const OPENCODE_REGEX = /opencode/gi\<close>\<close>

definition OPENCODE_REGEX :: regex where
  "OPENCODE_REGEX = Regex [''opencode''] True"

text \<open>
  Matching at the start of a text: the first alternative, in pattern order, that is a
  prefix of the text (up to letter case under the \<open>i\<close> flag, which compares the upper-case
  forms); the result is the length of the match.
\<close>

definition litMatches :: "bool \<Rightarrow> string \<Rightarrow> string \<Rightarrow> bool" where
  "litMatches icase lit text =
     (length lit \<le> length text \<and>
      (if icase then toUpperCase (take (length lit) text) = toUpperCase lit
       else take (length lit) text = lit))"

fun matchAlts :: "bool \<Rightarrow> string list \<Rightarrow> string \<Rightarrow> nat option" where
  "matchAlts icase [] text = None"
| "matchAlts icase (a # as) text =
     (if litMatches icase a text then Some (length a) else matchAlts icase as text)"

definition matchAt :: "regex \<Rightarrow> string \<Rightarrow> nat option" where
  "matchAt rx text = matchAlts (ignoreCase rx) (alts rx) text"

text \<open>\<open>regex.test(text)\<close> from position 0: is there a match anywhere?\<close>

fun regexTest :: "regex \<Rightarrow> string \<Rightarrow> bool" where
  "regexTest rx [] = (matchAt rx [] \<noteq> None)"
| "regexTest rx (c # cs) = (matchAt rx (c # cs) \<noteq> None \<or> regexTest rx cs)"

section \<open>Global replacement\<close>

text \<open>
  \<open>GetSubstitution\<close> for a pattern without capture groups: in the replacement string
  \<open>$$\<close> is a dollar sign, \<open>$&\<close> the matched text, \<open>$`\<close> the text in front of the match and
  \<open>$'\<close> the text behind it; any other character, a lone dollar sign included, is itself.
\<close>

fun getSubstitution :: "string \<Rightarrow> string \<Rightarrow> string \<Rightarrow> string \<Rightarrow> string" where
  "getSubstitution matched pre post [] = []"
| "getSubstitution matched pre post [c] = [c]"
| "getSubstitution matched pre post (c # d # ds) =
     (if c = CHR ''$'' then
        (if d = CHR ''$'' then CHR ''$'' # getSubstitution matched pre post ds
         else if d = CHR ''&'' then matched @ getSubstitution matched pre post ds
         else if d = backtick then pre @ getSubstitution matched pre post ds
         else if d = CHR 0x27 then post @ getSubstitution matched pre post ds
         else c # getSubstitution matched pre post (d # ds))
      else c # getSubstitution matched pre post (d # ds))"

text \<open>
  \<open>text.replace(regex, replacement)\<close> with a global matcher: one scan from left to right
  over the original text.  \<open>pre\<close> is the part of the text already scanned.  Behind an
  empty match the scan copies one character and moves on.
\<close>

fun replaceAll :: "regex \<Rightarrow> string \<Rightarrow> string \<Rightarrow> string \<Rightarrow> string" where
  "replaceAll rx r pre [] =
     (case matchAt rx [] of None \<Rightarrow> [] | Some _ \<Rightarrow> getSubstitution [] pre [] r)"
| "replaceAll rx r pre (c # cs) =
     (case matchAt rx (c # cs) of
        None \<Rightarrow> c # replaceAll rx r (pre @ [c]) cs
      | Some 0 \<Rightarrow> getSubstitution [] pre (c # cs) r @ c # replaceAll rx r (pre @ [c]) cs
      | Some (Suc k) \<Rightarrow>
          getSubstitution (c # take k cs) pre (drop k cs) r
            @ replaceAll rx r (pre @ c # take k cs) (drop k cs))"

definition replaceOpencode :: "string \<Rightarrow> string \<Rightarrow> regex option \<Rightarrow> string" where
  "replaceOpencode text replacement regex =
     (if text = [] then text
      else replaceAll (case regex of None \<Rightarrow> OPENCODE_REGEX | Some rx \<Rightarrow> rx) replacement [] text)"

section \<open>Ranges\<close>

text \<open>A range is a pair of offsets \<open>[start, end]\<close>; offsets are numbers, so possibly negative.\<close>

type_synonym range = "int \<times> int"

text \<open>
  \<open>text.slice(a, b)\<close> and \<open>text.slice(a)\<close>: a negative index counts from the end, and both
  indices are clamped to the text.
\<close>

definition sliceIndex :: "string \<Rightarrow> int \<Rightarrow> int" where
  "sliceIndex s a =
     (let len = int (length s) in if a < 0 then max (len + a) 0 else min a len)"

definition slice :: "string \<Rightarrow> int \<Rightarrow> int \<Rightarrow> string" where
  "slice s a b =
     (let from = sliceIndex s a; to = sliceIndex s b
      in take (nat (to - from)) (drop (nat from) s))"

definition sliceFrom :: "string \<Rightarrow> int \<Rightarrow> string" where
  "sliceFrom s a = drop (nat (sliceIndex s a)) s"

text \<open>
  \<open>mergeRanges\<close>.  \<open>sort\<close> with the comparator \<open>a[0] - b[0]\<close> is a stable sort on the
  start offset.  The loop either widens the last range of \<open>merged\<close> in place or pushes
  the current range.
\<close>

definition mergeStep :: "range list \<Rightarrow> range \<Rightarrow> range list" where
  "mergeStep merged current =
     (let lst = last merged in
      if fst current \<le> snd lst
      then butlast merged @ [(fst lst, max (snd lst) (snd current))]
      else merged @ [current])"

definition mergeRanges :: "range list \<Rightarrow> range list" where
  "mergeRanges ranges =
     (if ranges = [] then []
      else (let sorted = sort_key fst ranges
            in foldl mergeStep [hd sorted] (tl sorted)))"

text \<open>
  The argument that \<open>replaceOutsideRanges\<close> hands to its loop: offsets clamped at 0,
  ranges with \<open>end <= start\<close> filtered out, sorted by start, merged.
\<close>

definition clampRange :: "range \<Rightarrow> range" where
  "clampRange rg = (max 0 (fst rg), max 0 (snd rg))"

definition sanitizeRanges :: "range list \<Rightarrow> range list" where
  "sanitizeRanges ranges =
     mergeRanges (sort_key fst (filter (\<lambda>rg. snd rg > fst rg) (map clampRange ranges)))"

section \<open>Replacement outside protected ranges\<close>

text \<open>The \<open>for\<close> loop of \<open>replaceOutsideRanges\<close>, on the state \<open>(cursor, result)\<close>.\<close>

fun outsideLoop ::
  "string \<Rightarrow> string \<Rightarrow> regex option \<Rightarrow> range list \<Rightarrow> int \<Rightarrow> string \<Rightarrow> int \<times> string" where
  "outsideLoop text r rx [] cursor result = (cursor, result)"
| "outsideLoop text r rx ((start, en) # rest) cursor result =
     (let result1 = (if start > cursor
                     then result @ replaceOpencode (slice text cursor start) r rx
                     else result);
          result2 = result1 @ slice text start en
      in outsideLoop text r rx rest (max cursor en) result2)"

definition replaceOutsideRanges ::
  "string \<Rightarrow> string \<Rightarrow> range list \<Rightarrow> regex option \<Rightarrow> string" where
  "replaceOutsideRanges text r ranges rx =
     (if ranges = [] then replaceOpencode text r rx
      else (case outsideLoop text r rx (sanitizeRanges ranges) 0 [] of
              (cursor, result) \<Rightarrow>
                if cursor < int (length text)
                then result @ replaceOpencode (sliceFrom text cursor) r rx
                else result))"

section \<open>URL and path detection\<close>

text \<open>\<open>\s\<close> on code units below 256, and the class \<open>[^\s`"')\]]\<close> negated.\<close>

definition isSpace :: "char \<Rightarrow> bool" where
  "isSpace c = ((of_char c :: nat) \<in> {9, 10, 11, 12, 13, 32, 160})"

definition isTerminator :: "char \<Rightarrow> bool" where
  "isTerminator c =
     (isSpace c \<or> c = backtick \<or> c = CHR 0x22 \<or> c = CHR 0x27 \<or> c = CHR '')''
      \<or> c = CHR '']'')"

text \<open>The greedy \<open>[^\s`"')\]]+\<close>: how many characters it takes (0 when it fails).\<close>

definition runLength :: "string \<Rightarrow> nat" where
  "runLength text = length (takeWhile (\<lambda>c. \<not> isTerminator c) text)"

text \<open>
  \<open>URL_REGEX = /https?:\/\/[^\s`"')\]]+/gi\<close> at the start of a text, in two steps: the
  part in front of the run, \<open>https?:\/\/\<close> (the result is its length; the run must be
  able to start behind it), then the greedy run.  The optional \<open>s\<close> is greedy; giving
  it back never helps, since a colon must follow.
\<close>

definition urlPrefix :: "string \<Rightarrow> nat option" where
  "urlPrefix text =
     (if litMatches True ''http'' text then
        (let n = (if litMatches True ''s'' (drop 4 text) then 5 else 4)
         in if litMatches False ''://'' (drop n text) \<and> 0 < runLength (drop (n + 3) text)
            then Some (n + 3)
            else None)
      else None)"

definition matchUrlAt :: "string \<Rightarrow> nat option" where
  "matchUrlAt text =
     (case urlPrefix text of
        None \<Rightarrow> None
      | Some n \<Rightarrow> Some (n + runLength (drop n text)))"

definition isLetter :: "char \<Rightarrow> bool" where
  "isLetter c = (let n = (of_char c :: nat) in (65 \<le> n \<and> n \<le> 90) \<or> (97 \<le> n \<and> n \<le> 122))"

definition isWordChar :: "char \<Rightarrow> bool" where
  "isWordChar c =
     (let n = (of_char c :: nat) in isLetter c \<or> (48 \<le> n \<and> n \<le> 57) \<or> c = CHR ''_'')"

text \<open>
  \<open>PATH_REGEX\<close> at a position whose preceding character is \<open>prev\<close> (\<open>None\<close> at the start
  of the text).  The three alternatives in order: \<open>\b[a-zA-Z]:\\\<close>, \<open>~\/\<close>,
  \<open>\.\.?\/\<close>, each followed by the greedy run.  Before a letter \<open>\b\<close> holds when the
  preceding character is not a word character.
\<close>

definition pathPrefix :: "char option \<Rightarrow> string \<Rightarrow> nat option" where
  "pathPrefix prev text =
     (if (case text of c # _ \<Rightarrow> isLetter c | [] \<Rightarrow> False)
          \<and> (case prev of None \<Rightarrow> True | Some p \<Rightarrow> \<not> isWordChar p)
          \<and> litMatches False [CHR '':'', backslash] (drop 1 text)
          \<and> 0 < runLength (drop 3 text)
      then Some 3
      else if litMatches False ''~/'' text \<and> 0 < runLength (drop 2 text) then Some 2
      else if litMatches False ''../'' text \<and> 0 < runLength (drop 3 text) then Some 3
      else if litMatches False ''./'' text \<and> 0 < runLength (drop 2 text) then Some 2
      else None)"

definition matchPathAt :: "char option \<Rightarrow> string \<Rightarrow> nat option" where
  "matchPathAt prev text =
     (case pathPrefix prev text of
        None \<Rightarrow> None
      | Some n \<Rightarrow> Some (n + runLength (drop n text)))"

text \<open>
  \<open>text.matchAll(regex)\<close> as the list of \<open>[index, index + length]\<close>: the leftmost match at
  or behind the current position, then on from its end (one further behind an empty
  match).
\<close>

fun matchAllRanges ::
  "(char option \<Rightarrow> string \<Rightarrow> nat option) \<Rightarrow> char option \<Rightarrow> int \<Rightarrow> string \<Rightarrow> range list" where
  "matchAllRanges m prev pos [] =
     (case m prev [] of None \<Rightarrow> [] | Some _ \<Rightarrow> [(pos, pos)])"
| "matchAllRanges m prev pos (c # cs) =
     (case m prev (c # cs) of
        None \<Rightarrow> matchAllRanges m (Some c) (pos + 1) cs
      | Some 0 \<Rightarrow> (pos, pos) # matchAllRanges m (Some c) (pos + 1) cs
      | Some (Suc k) \<Rightarrow>
          (pos, pos + 1 + int k)
            # matchAllRanges m (Some (last (c # take k cs))) (pos + 1 + int k) (drop k cs))"

definition urlRanges :: "string \<Rightarrow> range list" where
  "urlRanges text = matchAllRanges (\<lambda>prev. matchUrlAt) None 0 text"

definition pathRanges :: "string \<Rightarrow> range list" where
  "pathRanges text = matchAllRanges matchPathAt None 0 text"

definition replaceExcludingUrlsAndPaths :: "string \<Rightarrow> string \<Rightarrow> regex option \<Rightarrow> string" where
  "replaceExcludingUrlsAndPaths text r rx =
     replaceOutsideRanges text r (urlRanges text @ pathRanges text) rx"

section \<open>Code spans\<close>

text \<open>
  \<open>text.split(sep)\<close> for a non-empty separator: cut at the leftmost occurrences that do
  not overlap.  \<open>cur\<close> is the piece being collected.  (The program splits at one
  backtick and at three; the empty separator, which JavaScript treats differently, is
  not used.)
\<close>

fun splitOn :: "string \<Rightarrow> string \<Rightarrow> string \<Rightarrow> string list" where
  "splitOn sep cur [] = [cur]"
| "splitOn sep cur (c # cs) =
     (if take (length sep) (c # cs) = sep
      then cur # splitOn sep [] (drop (length sep - 1) cs)
      else splitOn sep (cur @ [c]) cs)"

definition split :: "string \<Rightarrow> string \<Rightarrow> string list" where
  "split text sep = splitOn sep [] text"

text \<open>\<open>xs.map((x, index) => index % 2 === 1 ? x : f(x))\<close>\<close>

definition mapEvenIndexed :: "(string \<Rightarrow> string) \<Rightarrow> string list \<Rightarrow> string list" where
  "mapEvenIndexed f xs =
     map (\<lambda>(index, x). if index mod 2 = 1 then x else f x) (enumerate (0::nat) xs)"

definition replaceInInlineCodeSegments :: "string \<Rightarrow> string \<Rightarrow> regex option \<Rightarrow> string" where
  "replaceInInlineCodeSegments text r rx =
     joinWith [backtick]
       (mapEvenIndexed (\<lambda>segment. replaceExcludingUrlsAndPaths segment r rx)
          (split text [backtick]))"

definition replaceInText :: "string \<Rightarrow> string \<Rightarrow> regex option \<Rightarrow> string" where
  "replaceInText text r rx =
     (if text = [] then text
      else joinWith [backtick, backtick, backtick]
             (mapEvenIndexed (\<lambda>block. replaceInInlineCodeSegments block r rx)
                (split text [backtick, backtick, backtick])))"

section \<open>Predicates on range lists\<close>

text \<open>The offsets a list of half-open ranges covers.\<close>

definition covered :: "range list \<Rightarrow> int set" where
  "covered rs = (\<Union>rg\<in>set rs. {fst rg ..< snd rg})"

text \<open>A range lies inside one range of a list.\<close>

definition within :: "range \<Rightarrow> range list \<Rightarrow> bool" where
  "within rg ms = (\<exists>m\<in>set ms. fst m \<le> fst rg \<and> snd rg \<le> snd m)"

text \<open>
  A merged range set: every range is non-empty, and each range ends strictly before
  every later one starts.
\<close>

definition mergedInv :: "range list \<Rightarrow> bool" where
  "mergedInv ms = ((\<forall>r\<in>set ms. fst r < snd r) \<and> sorted_wrt (\<lambda>a b. snd a < fst b) ms)"

section \<open>The pieces a text is cut into\<close>

text \<open>
  The program walks through a text piece by piece: gaps, which go through
  \<open>replaceOpencode\<close>, and protected ranges, code segments and delimiters, which are
  copied.  The functions below list these pieces in the order of the walk; the results
  section proves that the pieces make up the input and that the output is the pieces
  rendered one by one.
\<close>

datatype piece = Gap string | Protected string | Code string | Delim string

fun pieceText :: "piece \<Rightarrow> string" where
  "pieceText (Gap s) = s"
| "pieceText (Protected s) = s"
| "pieceText (Code s) = s"
| "pieceText (Delim s) = s"

fun renderPiece :: "string \<Rightarrow> regex option \<Rightarrow> piece \<Rightarrow> string" where
  "renderPiece r rx (Gap s) = replaceOpencode s r rx"
| "renderPiece r rx (Protected s) = s"
| "renderPiece r rx (Code s) = s"
| "renderPiece r rx (Delim s) = s"

text \<open>The pieces of the loop of \<open>replaceOutsideRanges\<close> and of its last step.\<close>

fun rangePieces :: "string \<Rightarrow> range list \<Rightarrow> int \<Rightarrow> piece list" where
  "rangePieces text [] cursor =
     (if cursor < int (length text) then [Gap (sliceFrom text cursor)] else [])"
| "rangePieces text ((start, en) # rest) cursor =
     (if start > cursor then [Gap (slice text cursor start)] else [])
       @ Protected (slice text start en) # rangePieces text rest (max cursor en)"

definition outsidePieces :: "string \<Rightarrow> range list \<Rightarrow> piece list" where
  "outsidePieces text ranges =
     (if ranges = [] then [Gap text] else rangePieces text (sanitizeRanges ranges) 0)"

text \<open>The matcher a call uses: the one passed, or \<open>OPENCODE_REGEX\<close>.\<close>

definition effectiveRegex :: "regex option \<Rightarrow> regex" where
  "effectiveRegex rx = (case rx of None \<Rightarrow> OPENCODE_REGEX | Some x \<Rightarrow> x)"

section \<open>The earlier revision of the loop\<close>

text \<open>
  \<open>index.ts\<close> also holds an earlier revision of \<open>replaceOutsideRanges\<close>: no matcher
  argument, and the sorted ranges go to the loop without \<open>mergeRanges\<close>.
\<close>

definition replaceOutsideRanges_rev1 :: "string \<Rightarrow> string \<Rightarrow> range list \<Rightarrow> string" where
  "replaceOutsideRanges_rev1 tx r ranges =
     (if ranges = [] then replaceOpencode tx r None
      else (case outsideLoop tx r None
                   (sort_key fst (filter (\<lambda>rg. snd rg > fst rg) (map clampRange ranges))) 0 [] of
              (cursor, result) \<Rightarrow>
                if cursor < int (length tx)
                then result @ replaceOpencode (sliceFrom tx cursor) r None
                else result))"

section \<open>The pieces of a whole text\<close>

text \<open>
  The pieces of a list of split parts: parts at isOdd indices are code, parts at even
  indices are cut further by \<open>f\<close>, and the delimiter stands between neighbours.  \<open>isOdd\<close>
  tells whether the first part of the list has an isOdd index.
\<close>

fun altPieces :: "(string \<Rightarrow> piece list) \<Rightarrow> string \<Rightarrow> bool \<Rightarrow> string list \<Rightarrow> piece list" where
  "altPieces f d isOdd [] = []"
| "altPieces f d isOdd [x] = (if isOdd then [Code x] else f x)"
| "altPieces f d isOdd (x # y # ys) =
     (if isOdd then [Code x] else f x) @ Delim d # altPieces f d (\<not> isOdd) (y # ys)"

definition fence :: string where
  "fence = [backtick, backtick, backtick]"

definition segmentPieces :: "string \<Rightarrow> piece list" where
  "segmentPieces segment = outsidePieces segment (urlRanges segment @ pathRanges segment)"

definition inlinePieces :: "string \<Rightarrow> piece list" where
  "inlinePieces block = altPieces segmentPieces [backtick] False (split block [backtick])"

definition textPieces :: "string \<Rightarrow> piece list" where
  "textPieces tx = (if tx = [] then [] else altPieces inlinePieces fence False (split tx fence))"

section \<open>Plain texts\<close>


section \<open>The scan position of a global matcher\<close>

text \<open>
  A matcher with the \<open>g\<close> flag is an object with a field \<open>lastIndex\<close>.  \<open>test\<close> starts
  its search there and leaves the end of the match it found, or 0 when it found none;
  \<open>replace\<close> sets the field to 0 before and behind its scan.  The functions below are
  the pipeline once more, with \<open>lastIndex\<close> of the matcher in use passed along: each
  takes the value before the call and returns the value behind it with its result.
\<close>

fun findMatch :: "regex \<Rightarrow> nat \<Rightarrow> string \<Rightarrow> nat option" where
  "findMatch rx pos [] = (case matchAt rx [] of None \<Rightarrow> None | Some n \<Rightarrow> Some (pos + n))"
| "findMatch rx pos (c # cs) =
     (case matchAt rx (c # cs) of
        Some n \<Rightarrow> Some (pos + n)
      | None \<Rightarrow> findMatch rx (Suc pos) cs)"

definition regexTestS :: "regex \<Rightarrow> string \<Rightarrow> nat \<Rightarrow> bool \<times> nat" where
  "regexTestS rx tx lastIndex =
     (if lastIndex > length tx then (False, 0)
      else (case findMatch rx lastIndex (drop lastIndex tx) of
              None \<Rightarrow> (False, 0)
            | Some e \<Rightarrow> (True, e)))"

definition replaceOpencodeS :: "string \<Rightarrow> string \<Rightarrow> regex option \<Rightarrow> nat \<Rightarrow> string \<times> nat" where
  "replaceOpencodeS tx r regex lastIndex =
     (if tx = [] then (tx, lastIndex)
      else (replaceAll (effectiveRegex regex) r [] tx, 0))"

fun outsideLoopS ::
  "string \<Rightarrow> string \<Rightarrow> regex option \<Rightarrow> range list \<Rightarrow> int \<Rightarrow> string \<Rightarrow> nat
     \<Rightarrow> int \<times> string \<times> nat" where
  "outsideLoopS tx r rx [] cursor result li = (cursor, result, li)"
| "outsideLoopS tx r rx ((start, en) # rest) cursor result li =
     (case (if start > cursor
            then (case replaceOpencodeS (slice tx cursor start) r rx li of
                    (s, li1) \<Rightarrow> (result @ s, li1))
            else (result, li)) of
        (result1, li1) \<Rightarrow>
          outsideLoopS tx r rx rest (max cursor en) (result1 @ slice tx start en) li1)"

definition replaceOutsideRangesS ::
  "string \<Rightarrow> string \<Rightarrow> range list \<Rightarrow> regex option \<Rightarrow> nat \<Rightarrow> string \<times> nat" where
  "replaceOutsideRangesS tx r ranges rx li =
     (if ranges = [] then replaceOpencodeS tx r rx li
      else (case outsideLoopS tx r rx (sanitizeRanges ranges) 0 [] li of
              (cursor, result, li1) \<Rightarrow>
                if cursor < int (length tx)
                then (case replaceOpencodeS (sliceFrom tx cursor) r rx li1 of
                        (s, li2) \<Rightarrow> (result @ s, li2))
                else (result, li1)))"

definition replaceExcludingUrlsAndPathsS ::
  "string \<Rightarrow> string \<Rightarrow> regex option \<Rightarrow> nat \<Rightarrow> string \<times> nat" where
  "replaceExcludingUrlsAndPathsS tx r rx li =
     replaceOutsideRangesS tx r (urlRanges tx @ pathRanges tx) rx li"

fun mapEvenIndexedS ::
  "(string \<Rightarrow> nat \<Rightarrow> string \<times> nat) \<Rightarrow> nat \<Rightarrow> string list \<Rightarrow> nat \<Rightarrow> string list \<times> nat" where
  "mapEvenIndexedS f index [] li = ([], li)"
| "mapEvenIndexedS f index (x # xs) li =
     (case (if index mod 2 = 1 then (x, li) else f x li) of
        (y, li1) \<Rightarrow>
          (case mapEvenIndexedS f (Suc index) xs li1 of
             (ys, li2) \<Rightarrow> (y # ys, li2)))"

definition replaceInInlineCodeSegmentsS ::
  "string \<Rightarrow> string \<Rightarrow> regex option \<Rightarrow> nat \<Rightarrow> string \<times> nat" where
  "replaceInInlineCodeSegmentsS tx r rx li =
     (case mapEvenIndexedS (\<lambda>segment. replaceExcludingUrlsAndPathsS segment r rx) 0
             (split tx [backtick]) li of
        (segments, li1) \<Rightarrow> (joinWith [backtick] segments, li1))"

definition replaceInTextS :: "string \<Rightarrow> string \<Rightarrow> regex option \<Rightarrow> nat \<Rightarrow> string \<times> nat" where
  "replaceInTextS tx r rx li =
     (if tx = [] then (tx, li)
      else (case mapEvenIndexedS (\<lambda>block. replaceInInlineCodeSegmentsS block r rx) 0
                   (split tx [backtick, backtick, backtick]) li of
              (blocks, li1) \<Rightarrow> (joinWith [backtick, backtick, backtick] blocks, li1)))"

text \<open>
  \<open>updateSessionTitleIfNeeded\<close>: the title may be \<open>undefined\<close>.  \<open>test\<close> and the
  replacement use the same matcher object, the one passed or \<open>OPENCODE_REGEX\<close>; behind
  a successful \<open>test\<close> the function sets \<open>lastIndex\<close> to 0.
\<close>

definition updateSessionTitleIfNeeded ::
  "string option \<Rightarrow> string \<Rightarrow> regex option \<Rightarrow> nat \<Rightarrow> string option \<times> nat" where
  "updateSessionTitleIfNeeded title r regex li =
     (case title of
        None \<Rightarrow> (title, li)
      | Some t \<Rightarrow>
          if t = [] then (title, li)
          else (case regexTestS (effectiveRegex regex) t li of
                  (False, li1) \<Rightarrow> (title, li1)
                | (True, li1) \<Rightarrow>
                    (case replaceInTextS t r regex 0 of
                       (res, li2) \<Rightarrow> (Some res, li2))))"

text \<open>
  The earlier revision of \<open>updateSessionTitleIfNeeded\<close> in \<open>index.ts\<close>: no matcher
  argument, and \<open>lastIndex\<close> is left where \<open>test\<close> put it.
\<close>

definition updateSessionTitleIfNeeded_rev1 ::
  "string option \<Rightarrow> string \<Rightarrow> nat \<Rightarrow> string option \<times> nat" where
  "updateSessionTitleIfNeeded_rev1 title r li =
     (case title of
        None \<Rightarrow> (title, li)
      | Some t \<Rightarrow>
          if t = [] then (title, li)
          else (case regexTestS OPENCODE_REGEX t li of
                  (False, li1) \<Rightarrow> (title, li1)
                | (True, li1) \<Rightarrow>
                    (case replaceInTextS t r None li1 of
                       (res, li2) \<Rightarrow> (Some res, li2))))"

section \<open>What the detector recognises\<close>

text \<open>
  The part of a URL or path match in front of its run, as predicates on that part
  alone: \<open>http\<close> or \<open>https\<close> in any letter case and \<open>://\<close>; a drive letter behind a
  word boundary, a colon and a backslash; \<open>~/\<close>; \<open>../\<close>; \<open>./\<close>.
\<close>

definition urlHead :: "string \<Rightarrow> bool" where
  "urlHead p =
     (litMatches True ''http'' p
      \<and> (drop 4 p = ''://'' \<or> (litMatches True ''s'' (drop 4 p) \<and> drop 5 p = ''://'')))"

definition wordBoundaryBefore :: "char option \<Rightarrow> bool" where
  "wordBoundaryBefore prev = (case prev of None \<Rightarrow> True | Some p \<Rightarrow> \<not> isWordChar p)"

definition pathHead :: "char option \<Rightarrow> string \<Rightarrow> bool" where
  "pathHead prev p =
     ((case p of c # cs \<Rightarrow> isLetter c \<and> cs = [CHR '':'', backslash] | [] \<Rightarrow> False)
        \<and> wordBoundaryBefore prev
      \<or> p = ''~/'' \<or> p = ''../'' \<or> p = ''./'')"

text \<open>The character in front of a position: the last one of the text before it.\<close>

definition prevChar :: "string \<Rightarrow> char option" where
  "prevChar a = (if a = [] then None else Some (last a))"

section \<open>Variant generation: results\<close>

lemma error_eq: "(x :: error) = TypeError"
  by (cases x) simp

lemma capitalize_Inl: "capitalize w = Inl e \<longleftrightarrow> w = []"
  by (cases e) (auto simp: capitalize_def split: list.splits)

lemma mapE_capitalize_Inl: "(\<exists>e. mapE capitalize ws = Inl e) \<longleftrightarrow> [] \<in> set ws"
proof (induction ws)
  case Nil
  show ?case by simp
next
  case (Cons w ws)
  show ?case
  proof (cases "capitalize w")
    case (Inl e)
    then show ?thesis using capitalize_Inl[of w e] by auto
  next
    case (Inr y)
    then have "w \<noteq> []" by (auto simp: capitalize_def)
    with Inr Cons show ?thesis by (auto split: sum.splits)
  qed
qed

lemma set_drop1: "[] \<in> set (drop 1 ws) \<Longrightarrow> [] \<in> set ws"
  by (cases ws) auto

text \<open>
  C7.  On the decomposition \<open>["open", "code"]\<close> \<open>generateCaseVariants\<close> returns the seven
  spellings camel, Pascal, kebab, snake, screaming snake, screaming kebab and dot, in
  that order.  The matcher \<open>buildVariantRegex\<close> compiles from them has exactly these
  seven literals as its alternatives, matches each of the seven forms (alone, in full
  length, and inside a sentence), and matches nowhere in \<open>openXcode\<close>, which is one
  character away from \<open>open.code\<close>, \<open>open-code\<close> and \<open>open_code\<close>.
\<close>

theorem variants_of_open_code:
  "generateCaseVariants [''open'', ''code'']
     = Inr [''openCode'', ''OpenCode'', ''open-code'', ''open_code'',
            ''OPEN_CODE'', ''OPEN-CODE'', ''open.code'']
   \<and> buildVariantRegex [''openCode'', ''OpenCode'', ''open-code'', ''open_code'',
                         ''OPEN_CODE'', ''OPEN-CODE'', ''open.code'']
     = Some (Regex [''openCode'', ''OpenCode'', ''open-code'', ''open_code'',
                    ''OPEN_CODE'', ''OPEN-CODE'', ''open.code''] False)
   \<and> map (matchAt (Regex [''openCode'', ''OpenCode'', ''open-code'', ''open_code'',
                           ''OPEN_CODE'', ''OPEN-CODE'', ''open.code''] False))
         [''openCode'', ''OpenCode'', ''open-code'', ''open_code'',
          ''OPEN_CODE'', ''OPEN-CODE'', ''open.code'']
     = [Some 8, Some 8, Some 9, Some 9, Some 9, Some 9, Some 9]
   \<and> map (regexTest (Regex [''openCode'', ''OpenCode'', ''open-code'', ''open_code'',
                             ''OPEN_CODE'', ''OPEN-CODE'', ''open.code''] False))
         [''hello openCode world'', ''hello OpenCode world'', ''hello open-code world'',
          ''hello open_code world'', ''hello OPEN_CODE world'', ''hello OPEN-CODE world'',
          ''hello open.code world'', ''openXcode'']
     = [True, True, True, True, True, True, True, False]"
  by code_simp


text \<open>
  C10.  \<open>generateCaseVariants\<close> throws exactly when some part of the decomposition is
  the empty string; otherwise it returns seven strings.  \<open>splitIntoWords\<close> of the empty
  word is the one-element decomposition with the empty part, so the pipeline throws on
  the empty target word.
\<close>

theorem generateCaseVariants_total_iff:
  "(generateCaseVariants words = Inl TypeError \<longleftrightarrow> [] \<in> set words)
   \<and> ([] \<notin> set words \<longrightarrow> (\<exists>vs. generateCaseVariants words = Inr vs \<and> length vs = 7))
   \<and> generateCaseVariants (splitIntoWords []) = Inl TypeError"
proof -
  have A: "generateCaseVariants words = Inl TypeError" if "[] \<in> set words"
  proof -
    from that obtain e where "mapE capitalize words = Inl e"
      using mapE_capitalize_Inl[of words] by blast
    then show ?thesis
      by (cases e) (auto simp: generateCaseVariants_def Let_def error_eq split: sum.splits)
  qed
  have B: "\<exists>vs. generateCaseVariants words = Inr vs \<and> length vs = 7" if "[] \<notin> set words"
  proof -
    from that have "\<not> (\<exists>e. mapE capitalize words = Inl e)"
      using mapE_capitalize_Inl[of words] by blast
    then obtain caps where c: "mapE capitalize words = Inr caps"
      by (cases "mapE capitalize words") auto
    from that have "[] \<notin> set (drop 1 words)" using set_drop1 by blast
    then have "\<not> (\<exists>e. mapE capitalize (drop 1 words) = Inl e)"
      using mapE_capitalize_Inl[of "drop 1 words"] by blast
    then obtain capsTail where t: "mapE capitalize (drop 1 words) = Inr capsTail"
      by (cases "mapE capitalize (drop 1 words)") auto
    show ?thesis using c t by (simp add: generateCaseVariants_def Let_def)
  qed
  have C: "generateCaseVariants (splitIntoWords []) = Inl TypeError"
    by code_simp
  from A B C show ?thesis by (metis sum.distinct(1))
qed

theorem generateCaseVariants_total_iff_witness:
  "[] \<notin> set [''open'', ''code'']
   \<and> (\<exists>vs. generateCaseVariants [''open'', ''code''] = Inr vs \<and> length vs = 7)
   \<and> [] \<in> set [[]] \<and> generateCaseVariants [[]] = Inl TypeError"
  using generateCaseVariants_total_iff[of "[''open'', ''code'']"]
        generateCaseVariants_total_iff[of "[[]]"]
  by simp

section \<open>The interval merger\<close>

lemma covered_append: "covered (xs @ ys) = covered xs \<union> covered ys"
  by (auto simp: covered_def)

lemma covered_Cons: "covered (x # xs) = {fst x ..< snd x} \<union> covered xs"
  by (auto simp: covered_def)

lemma covered_Nil: "covered [] = {}"
  by (simp add: covered_def)

lemma within_append: "within rg (xs @ ys) \<longleftrightarrow> within rg xs \<or> within rg ys"
  by (auto simp: within_def)

lemma mergeStep_snoc:
  "mergeStep (bs @ [l]) c =
     (if fst c \<le> snd l then bs @ [(fst l, max (snd l) (snd c))] else bs @ [l, c])"
  by (simp add: mergeStep_def Let_def)

lemma mergeStep_inv:
  assumes "mergedInv (bs @ [l])" "fst l \<le> fst c" "fst c < snd c"
  shows "mergedInv (mergeStep (bs @ [l]) c)"
proof (cases "fst c \<le> snd l")
  case True
  with assms show ?thesis
    by (auto simp: mergeStep_snoc mergedInv_def sorted_wrt_append)
next
  case False
  with assms show ?thesis
    by (fastforce simp: mergeStep_snoc mergedInv_def sorted_wrt_append)
qed

lemma mergeStep_covered:
  assumes "fst l \<le> fst c" "fst c < snd c" "fst l < snd l"
  shows "covered (mergeStep (bs @ [l]) c) = covered (bs @ [l]) \<union> {fst c ..< snd c}"
  using assms by (auto simp: mergeStep_snoc covered_append covered_Cons covered_Nil)

lemma mergeStep_within:
  assumes "within rg (bs @ [l])"
  shows "within rg (mergeStep (bs @ [l]) c)"
  using assms by (auto simp: mergeStep_snoc within_def)

lemma mergeStep_within_new:
  assumes "fst l \<le> fst c"
  shows "within c (mergeStep (bs @ [l]) c)"
  using assms by (auto simp: mergeStep_snoc within_def)

lemma mergeStep_last:
  "mergeStep (bs @ [l]) c \<noteq> [] \<and> fst (last (mergeStep (bs @ [l]) c)) = (if fst c \<le> snd l then fst l else fst c)"
  by (simp add: mergeStep_snoc)

lemma foldl_mergeStep:
  assumes "acc \<noteq> []" "mergedInv acc" "sorted (map fst xs)"
    "\<forall>x\<in>set xs. fst (last acc) \<le> fst x \<and> fst x < snd x"
  shows "mergedInv (foldl mergeStep acc xs)
       \<and> foldl mergeStep acc xs \<noteq> []
       \<and> covered (foldl mergeStep acc xs) = covered acc \<union> covered xs
       \<and> (\<forall>rg. within rg acc \<longrightarrow> within rg (foldl mergeStep acc xs))
       \<and> (\<forall>x\<in>set xs. within x (foldl mergeStep acc xs))"
  using assms
proof (induction xs arbitrary: acc)
  case Nil
  then show ?case by (simp add: covered_Nil)
next
  case (Cons c xs)
  from Cons.prems(1) obtain bs l where acc: "acc = bs @ [l]"
    by (metis append_butlast_last_id)
  have lc: "fst l \<le> fst c" and cc: "fst c < snd c"
    using Cons.prems(4) acc by auto
  have ll: "fst l < snd l" using Cons.prems(2) acc by (auto simp: mergedInv_def)
  let ?acc' = "mergeStep acc c"
  have ne: "?acc' \<noteq> []" using mergeStep_last[of bs l c] acc by simp
  have inv: "mergedInv ?acc'" using mergeStep_inv[of bs l c] Cons.prems(2) lc cc acc by simp
  have srt: "sorted (map fst xs)" using Cons.prems(3) by simp
  have lastle: "\<forall>x\<in>set xs. fst (last ?acc') \<le> fst x \<and> fst x < snd x"
  proof
    fix x assume x: "x \<in> set xs"
    have "fst c \<le> fst x" using Cons.prems(3) x by auto
    moreover have "fst (last ?acc') \<le> fst c"
      using mergeStep_last[of bs l c] lc acc by (auto split: if_splits)
    moreover have "fst x < snd x" using Cons.prems(4) x by auto
    ultimately show "fst (last ?acc') \<le> fst x \<and> fst x < snd x" by simp
  qed
  note IH = Cons.IH[OF ne inv srt lastle]
  have cov: "covered ?acc' = covered acc \<union> {fst c ..< snd c}"
    using mergeStep_covered[OF lc cc ll, of bs] acc by simp
  have w1: "\<And>rg. within rg acc \<Longrightarrow> within rg ?acc'"
    using mergeStep_within acc by simp
  have w2: "within c ?acc'" using mergeStep_within_new[OF lc, of bs] acc by simp
  have a: "mergedInv (foldl mergeStep acc (c # xs))" using IH by simp
  have b: "foldl mergeStep acc (c # xs) \<noteq> []" using IH by simp
  have c: "covered (foldl mergeStep acc (c # xs)) = covered acc \<union> covered (c # xs)"
    using IH cov by (simp add: covered_Cons Un_assoc)
  have d: "\<forall>rg. within rg acc \<longrightarrow> within rg (foldl mergeStep acc (c # xs))"
    using IH w1 by (simp del: split_paired_All)
  have e1: "within c (foldl mergeStep acc (c # xs))"
    using IH w2 by (simp del: split_paired_All)
  have e2: "\<forall>x\<in>set xs. within x (foldl mergeStep acc (c # xs))"
    using IH by (simp del: split_paired_All)
  have e: "\<forall>x\<in>set (c # xs). within x (foldl mergeStep acc (c # xs))"
    using e1 e2 by simp
  from a b c d e show ?case by blast
qed

lemma mergeRanges_props:
  assumes "\<forall>x\<in>set rs. fst x < snd x"
  shows "mergedInv (mergeRanges rs) \<and> covered (mergeRanges rs) = covered rs
       \<and> (\<forall>x\<in>set rs. within x (mergeRanges rs))"
proof (cases "rs = []")
  case True
  then show ?thesis by (simp add: mergeRanges_def mergedInv_def)
next
  case False
  let ?s = "sort_key fst rs"
  have ne: "?s \<noteq> []" using False by (metis length_0_conv length_sort)
  then obtain h t where ht: "?s = h # t" by (cases ?s) auto
  have srt: "sorted (map fst (h # t))" using ht by (metis sorted_sort_key)
  have st: "set (h # t) = set rs" using ht by (metis set_sort)
  have hh: "fst h < snd h" using st assms by auto
  have 1: "[h] \<noteq> []" by simp
  have 2: "mergedInv [h]" using hh by (simp add: mergedInv_def)
  have 3: "sorted (map fst t)" using srt by simp
  have 4: "\<forall>x\<in>set t. fst (last [h]) \<le> fst x \<and> fst x < snd x"
    using srt st assms by auto
  note F = foldl_mergeStep[OF 1 2 3 4]
  have mr: "mergeRanges rs = foldl mergeStep [h] t"
    using False ht by (simp add: mergeRanges_def)
  have cov: "covered rs = covered [h] \<union> covered t"
    using st by (auto simp: covered_def)
  have wh: "within h [h]" by (simp add: within_def)
  have a: "mergedInv (mergeRanges rs)" using F mr by simp
  have b: "covered (mergeRanges rs) = covered rs" using F mr cov by simp
  have c: "\<forall>x\<in>set rs. within x (mergeRanges rs)"
  proof
    fix x assume "x \<in> set rs"
    then have "x = h \<or> x \<in> set t" using st by auto
    then show "within x (mergeRanges rs)" using F wh mr by metis
  qed
  from a b c show ?thesis by blast
qed


lemma covered_filter_nonempty:
  "covered (filter (\<lambda>rg. snd rg > fst rg) xs) = covered xs"
  by (auto simp: covered_def)

lemma covered_sort_key: "covered (sort_key f xs) = covered xs"
  by (simp add: covered_def)

lemma covered_clamp_nonneg: "x \<in> covered (map clampRange rs) \<Longrightarrow> 0 \<le> x"
  by (auto simp: covered_def clampRange_def)

lemma sanitizeRanges_props:
  "mergedInv (sanitizeRanges rs)
   \<and> covered (sanitizeRanges rs) = covered (map clampRange rs)
   \<and> (\<forall>x\<in>set (map clampRange rs). fst x < snd x \<longrightarrow> within x (sanitizeRanges rs))"
proof -
  let ?F = "filter (\<lambda>rg. snd rg > fst rg) (map clampRange rs)"
  let ?S = "sort_key fst ?F"
  have pos: "\<forall>x\<in>set ?S. fst x < snd x" by auto
  note M = mergeRanges_props[OF pos]
  have a: "mergedInv (sanitizeRanges rs)" using M by (simp add: sanitizeRanges_def)
  have b: "covered (sanitizeRanges rs) = covered (map clampRange rs)"
    using M covered_filter_nonempty[of "map clampRange rs"] covered_sort_key[of fst ?F]
    by (simp add: sanitizeRanges_def)
  have c: "\<forall>x\<in>set (map clampRange rs). fst x < snd x \<longrightarrow> within x (sanitizeRanges rs)"
  proof (intro ballI impI)
    fix x assume "x \<in> set (map clampRange rs)" "fst x < snd x"
    then have "x \<in> set ?S" by simp
    then show "within x (sanitizeRanges rs)" using M unfolding sanitizeRanges_def by blast
  qed
  from a b c show ?thesis by blast
qed

lemma mergedInv_adjacent:
  assumes "mergedInv ms" "Suc i < length ms"
  shows "snd (ms ! i) < fst (ms ! Suc i)"
  using assms by (simp add: mergedInv_def sorted_wrt_iff_nth_less)

lemma mergedInv_sorted:
  assumes "mergedInv ms"
  shows "sorted (map fst ms)"
proof -
  have "sorted_wrt (\<lambda>a b. fst a \<le> fst b) ms"
  proof (rule sorted_wrt_mono_rel[of ms "\<lambda>a b. snd a < fst b"])
    show "sorted_wrt (\<lambda>a b. snd a < fst b) ms" using assms by (simp add: mergedInv_def)
  next
    fix a b assume "a \<in> set ms" "b \<in> set ms" "snd a < fst b"
    moreover have "fst a < snd a" using assms \<open>a \<in> set ms\<close> by (simp add: mergedInv_def)
    ultimately show "fst a \<le> fst b" by simp
  qed
  then show ?thesis by (simp add: sorted_map)
qed

text \<open>
  C5.  The merger as \<open>replaceOutsideRanges\<close> runs it (clamp, filter, sort,
  \<open>mergeRanges\<close>) is a total function of any list of ranges, and its result is sorted
  by start, has \<open>ranges[i].end < ranges[i+1].start\<close> for every adjacent pair, contains
  only ranges with \<open>0 <= start < end\<close>, and covers exactly the offsets that the input
  ranges cover once their offsets are clamped at 0 (so a range with \<open>end <= start\<close>
  contributes nothing).
\<close>

theorem sanitizeRanges_merged:
  "(\<forall>i. Suc i < length (sanitizeRanges rs) \<longrightarrow>
        snd (sanitizeRanges rs ! i) < fst (sanitizeRanges rs ! Suc i))
   \<and> sorted (map fst (sanitizeRanges rs))
   \<and> (\<forall>m\<in>set (sanitizeRanges rs). 0 \<le> fst m \<and> fst m < snd m)
   \<and> covered (sanitizeRanges rs) = covered (map clampRange rs)"
proof -
  note P = sanitizeRanges_props[of rs]
  have inv: "mergedInv (sanitizeRanges rs)" using P by blast
  have cov: "covered (sanitizeRanges rs) = covered (map clampRange rs)" using P by blast
  have a: "\<forall>i. Suc i < length (sanitizeRanges rs) \<longrightarrow>
        snd (sanitizeRanges rs ! i) < fst (sanitizeRanges rs ! Suc i)"
    using mergedInv_adjacent[OF inv] by blast
  have b: "sorted (map fst (sanitizeRanges rs))" using mergedInv_sorted[OF inv] .
  have c: "\<forall>m\<in>set (sanitizeRanges rs). 0 \<le> fst m \<and> fst m < snd m"
  proof
    fix m assume m: "m \<in> set (sanitizeRanges rs)"
    then have lt: "fst m < snd m" using inv by (simp add: mergedInv_def)
    then have "fst m \<in> covered (sanitizeRanges rs)" using m by (auto simp: covered_def)
    then have "0 \<le> fst m" using cov covered_clamp_nonneg by simp
    with lt show "0 \<le> fst m \<and> fst m < snd m" by simp
  qed
  from a b c cov show ?thesis by blast
qed

lemma sanitize_example:
  "sanitizeRanges [(5, 3), (-4, 2), (2, 2), (10, 12), (1, 4), (4, 6), (-5, -1)] = [(0, 6), (10, 12)]"
  by code_simp

theorem sanitizeRanges_merged_witness:
  "Suc 0 < length (sanitizeRanges [(5, 3), (-4, 2), (2, 2), (10, 12), (1, 4), (4, 6), (-5, -1)])
   \<and> snd (sanitizeRanges [(5, 3), (-4, 2), (2, 2), (10, 12), (1, 4), (4, 6), (-5, -1)] ! 0)
       < fst (sanitizeRanges [(5, 3), (-4, 2), (2, 2), (10, 12), (1, 4), (4, 6), (-5, -1)] ! Suc 0)
   \<and> (0, 6) \<in> set (sanitizeRanges [(5, 3), (-4, 2), (2, 2), (10, 12), (1, 4), (4, 6), (-5, -1)])
   \<and> 0 \<le> fst ((0, 6) :: range) \<and> fst ((0, 6) :: range) < snd ((0, 6) :: range)"
proof -
  let ?R = "[(5, 3), (-4, 2), (2, 2), (10, 12), (1, 4), (4, 6), (-5, -1)] :: range list"
  have h: "Suc 0 < length (sanitizeRanges ?R)" by (simp add: sanitize_example)
  have m: "(0, 6) \<in> set (sanitizeRanges ?R)" by (simp add: sanitize_example)
  from sanitizeRanges_merged[of ?R] h
  have 1: "snd (sanitizeRanges ?R ! 0) < fst (sanitizeRanges ?R ! Suc 0)" by blast
  from sanitizeRanges_merged[of ?R] m
  have 2: "0 \<le> fst ((0, 6) :: range) \<and> fst ((0, 6) :: range) < snd ((0, 6) :: range)" by blast
  from h m 1 2 show ?thesis by blast
qed

section \<open>Replacement outside protected ranges: results\<close>

lemma sliceIndex_nonneg: "0 \<le> a \<Longrightarrow> sliceIndex s a = min a (int (length s))"
  by (simp add: sliceIndex_def Let_def)

lemma slice_nonneg:
  assumes "0 \<le> a" "a \<le> b"
  shows "slice s a b = take (nat b - nat a) (drop (nat a) s)"
proof -
  have "take (nat (min b (int (length s)) - min a (int (length s)))) (drop (nat (min a (int (length s)))) s)
        = take (nat b - nat a) (drop (nat a) s)"
  proof (cases "a \<le> int (length s)")
    case True
    then have 1: "min a (int (length s)) = a" by simp
    show ?thesis
    proof (cases "b \<le> int (length s)")
      case True
      then show ?thesis using 1 assms by (simp add: nat_diff_distrib)
    next
      case False
      then have "min b (int (length s)) = int (length s)" by simp
      moreover have "length s - nat a \<le> nat b - nat a" using False assms by linarith
      ultimately show ?thesis using 1 assms True by (simp add: nat_diff_distrib)
    qed
  next
    case False
    then show ?thesis using assms by simp
  qed
  then show ?thesis using assms by (simp add: slice_def Let_def sliceIndex_nonneg)
qed

lemma sliceFrom_nonneg: "0 \<le> a \<Longrightarrow> sliceFrom s a = drop (nat a) s"
  by (cases "a \<le> int (length s)") (simp_all add: sliceFrom_def sliceIndex_nonneg min_def)

lemma take_drop_join: "a \<le> b \<Longrightarrow> take (b - a) (drop a t) @ drop b t = drop a t"
proof -
  assume "a \<le> b"
  then have "drop b t = drop (b - a) (drop a t)" by simp
  then show ?thesis by (metis append_take_drop_id)
qed

text \<open>The pieces of the loop make up the text from the cursor on.\<close>

lemma rangePieces_text:
  assumes "mergedInv ms" "0 \<le> cursor" "\<forall>m\<in>set ms. cursor \<le> fst m"
  shows "concat (map pieceText (rangePieces text ms cursor)) = drop (nat cursor) text"
  using assms
proof (induction ms arbitrary: cursor)
  case Nil
  then show ?case by (simp add: sliceFrom_nonneg)
next
  case (Cons m ms)
  obtain start en where m: "m = (start, en)" by (cases m)
  have se: "start < en" using Cons.prems(1) m by (simp add: mergedInv_def)
  have cs: "cursor \<le> start" using Cons.prems(3) m by simp
  have inv: "mergedInv ms" using Cons.prems(1) by (simp add: mergedInv_def)
  have nxt: "\<forall>x\<in>set ms. max cursor en \<le> fst x"
    using Cons.prems(1) m se cs by (auto simp: mergedInv_def)
  have "0 \<le> max cursor en" using Cons.prems(2) by simp
  from Cons.IH[OF inv this nxt]
  have IH: "concat (map pieceText (rangePieces text ms (max cursor en))) = drop (nat en) text"
    using se cs by (simp add: max_def)
  have prot: "slice text start en = take (nat en - nat start) (drop (nat start) text)"
    using slice_nonneg[of start en "text"] Cons.prems(2) cs se by simp
  have gap: "slice text cursor start = take (nat start - nat cursor) (drop (nat cursor) text)"
    using slice_nonneg[of cursor start "text"] Cons.prems(2) cs by simp
  have j1: "slice text start en @ drop (nat en) text = drop (nat start) text"
    using prot take_drop_join[of "nat start" "nat en" "text"] se by simp
  have j2: "slice text cursor start @ drop (nat start) text = drop (nat cursor) text"
    using gap take_drop_join[of "nat cursor" "nat start" "text"] cs by simp
  show ?case
  proof (cases "start > cursor")
    case True
    then show ?thesis using m IH j1 j2 by simp
  next
    case False
    then have "start = cursor" using cs by simp
    then show ?thesis using m IH j1 by simp
  qed
qed

text \<open>The loop computes the rendering of its pieces.\<close>

lemma outsideLoop_pieces:
  "(case outsideLoop text r rx ms cursor result of
      (cursor', result') \<Rightarrow>
        (if cursor' < int (length text)
         then result' @ replaceOpencode (sliceFrom text cursor') r rx else result'))
   = result @ concat (map (renderPiece r rx) (rangePieces text ms cursor))"
proof (induction ms arbitrary: cursor result)
  case Nil
  show ?case by simp
next
  case (Cons m ms)
  obtain start en where m: "m = (start, en)" by (cases m)
  show ?case using Cons.IH by (simp add: m Let_def)
qed

lemma replaceOutsideRanges_pieces:
  "replaceOutsideRanges text r ranges rx
     = concat (map (renderPiece r rx) (outsidePieces text ranges))"
  using outsideLoop_pieces[of "text" r rx "sanitizeRanges ranges" 0 "[]"]
  by (simp add: replaceOutsideRanges_def outsidePieces_def)

lemma sanitizeRanges_nonneg:
  assumes "m \<in> set (sanitizeRanges rs)"
  shows "0 \<le> fst m"
proof -
  have inv: "mergedInv (sanitizeRanges rs)" using sanitizeRanges_props by blast
  then have "fst m < snd m" using assms by (simp add: mergedInv_def)
  then have "fst m \<in> covered (sanitizeRanges rs)" using assms by (auto simp: covered_def)
  then show ?thesis using sanitizeRanges_props[of rs] covered_clamp_nonneg by simp
qed

lemma outsidePieces_text: "concat (map pieceText (outsidePieces text ranges)) = text"
proof (cases "ranges = []")
  case True
  then show ?thesis by (simp add: outsidePieces_def)
next
  case False
  have inv: "mergedInv (sanitizeRanges ranges)" using sanitizeRanges_props by blast
  have "\<forall>m\<in>set (sanitizeRanges ranges). 0 \<le> fst m" using sanitizeRanges_nonneg by blast
  from rangePieces_text[OF inv _ this, of "text"] False show ?thesis
    by (simp add: outsidePieces_def)
qed

section \<open>Texts without a match\<close>

lemma litMatches_append: "litMatches ic lit xs \<Longrightarrow> litMatches ic lit (xs @ ys)"
  by (auto simp: litMatches_def split: if_splits)

lemma matchAlts_append:
  "matchAlts ic as xs \<noteq> None \<Longrightarrow> matchAlts ic as (xs @ ys) \<noteq> None"
proof (induction as)
  case Nil
  then show ?case by simp
next
  case (Cons a as)
  show ?case
  proof (cases "litMatches ic a xs")
    case True
    then have "litMatches ic a (xs @ ys)" by (rule litMatches_append)
    then show ?thesis by simp
  next
    case False
    with Cons show ?thesis by auto
  qed
qed

lemma matchAt_append: "matchAt rx xs \<noteq> None \<Longrightarrow> matchAt rx (xs @ ys) \<noteq> None"
  by (simp add: matchAt_def matchAlts_append)

lemma matchAlts_Nil: "matchAlts ic as [] = Some n \<Longrightarrow> n = 0"
  by (induction as) (auto simp: litMatches_def split: if_splits)

lemma matchAt_Nil: "matchAt rx [] = Some n \<Longrightarrow> n = 0"
  by (simp add: matchAt_def matchAlts_Nil)

lemma matchAlts_bound: "matchAlts ic as xs = Some n \<Longrightarrow> n \<le> length xs"
  by (induction as) (auto simp: litMatches_def split: if_splits)

lemma matchAt_bound: "matchAt rx xs = Some n \<Longrightarrow> n \<le> length xs"
  by (simp add: matchAt_def matchAlts_bound)

lemma regexTest_iff: "regexTest rx g \<longleftrightarrow> (\<exists>j. matchAt rx (drop j g) \<noteq> None)"
proof (induction g)
  case Nil
  show ?case by simp
next
  case (Cons c cs)
  have "(\<exists>j. matchAt rx (drop j (c # cs)) \<noteq> None)
        \<longleftrightarrow> matchAt rx (c # cs) \<noteq> None \<or> (\<exists>j. matchAt rx (drop j cs) \<noteq> None)"
  proof
    assume "\<exists>j. matchAt rx (drop j (c # cs)) \<noteq> None"
    then obtain j where j: "matchAt rx (drop j (c # cs)) \<noteq> None" by blast
    show "matchAt rx (c # cs) \<noteq> None \<or> (\<exists>j. matchAt rx (drop j cs) \<noteq> None)"
    proof (cases j)
      case 0
      with j show ?thesis by simp
    next
      case (Suc k)
      with j have "matchAt rx (drop k cs) \<noteq> None" by simp
      then show ?thesis by blast
    qed
  next
    assume "matchAt rx (c # cs) \<noteq> None \<or> (\<exists>j. matchAt rx (drop j cs) \<noteq> None)"
    then show "\<exists>j. matchAt rx (drop j (c # cs)) \<noteq> None"
    proof
      assume "matchAt rx (c # cs) \<noteq> None"
      then have "matchAt rx (drop 0 (c # cs)) \<noteq> None" by simp
      then show ?thesis by blast
    next
      assume "\<exists>j. matchAt rx (drop j cs) \<noteq> None"
      then obtain j where "matchAt rx (drop j cs) \<noteq> None" by blast
      then have "matchAt rx (drop (Suc j) (c # cs)) \<noteq> None" by simp
      then show ?thesis by blast
    qed
  qed
  with Cons show ?case by simp
qed


lemma replaceAll_no_match:
  "\<not> regexTest rx g \<Longrightarrow> replaceAll rx r pre g = g"
  by (induction g arbitrary: pre) auto

lemma replaceOpencode_no_match:
  "\<not> regexTest (effectiveRegex rx) g \<Longrightarrow> replaceOpencode g r rx = g"
  by (simp add: replaceOpencode_def effectiveRegex_def replaceAll_no_match)

text \<open>
  When every match of the text from the cursor on lies inside one of the remaining
  ranges, no gap of the loop holds a match, so every piece is rendered as it is.
\<close>

lemma rangePieces_unchanged:
  assumes "mergedInv ms" "0 \<le> cursor" "\<forall>m\<in>set ms. cursor \<le> fst m"
    and "\<forall>i n. nat cursor \<le> i \<longrightarrow> matchAt (effectiveRegex rx) (drop i tx) = Some n \<longrightarrow>
           0 < n \<and> (\<exists>m\<in>set ms. fst m \<le> int i \<and> int i + int n \<le> snd m)"
  shows "map (renderPiece r rx) (rangePieces tx ms cursor) = map pieceText (rangePieces tx ms cursor)"
  using assms
proof (induction ms arbitrary: cursor)
  case Nil
  have "\<not> regexTest (effectiveRegex rx) (drop (nat cursor) tx)"
  proof
    assume "regexTest (effectiveRegex rx) (drop (nat cursor) tx)"
    then obtain j where "matchAt (effectiveRegex rx) (drop j (drop (nat cursor) tx)) \<noteq> None"
      using regexTest_iff by blast
    then obtain n where "matchAt (effectiveRegex rx) (drop (j + nat cursor) tx) = Some n"
      by auto
    with Nil.prems(4) show False by (metis empty_iff le_add2 list.set(1))
  qed
  then show ?case using Nil.prems(2) by (simp add: sliceFrom_nonneg replaceOpencode_no_match)
next
  case (Cons m ms)
  obtain start en where m: "m = (start, en)" by (cases m)
  have se: "start < en" using Cons.prems(1) m by (simp add: mergedInv_def)
  have cs: "cursor \<le> start" using Cons.prems(3) m by simp
  have inv: "mergedInv ms" using Cons.prems(1) by (simp add: mergedInv_def)
  have later: "\<forall>x\<in>set ms. en < fst x"
    using Cons.prems(1) m by (auto simp: mergedInv_def)
  have nxt: "\<forall>x\<in>set ms. max cursor en \<le> fst x"
    using later se cs by auto
  have nn: "0 \<le> max cursor en" using Cons.prems(2) by simp
  have empty_none: "matchAt (effectiveRegex rx) [] = None"
  proof (rule ccontr)
    assume "matchAt (effectiveRegex rx) [] \<noteq> None"
    then obtain n where n: "matchAt (effectiveRegex rx) [] = Some n" by auto
    then have "n = 0" using matchAt_Nil by blast
    moreover have "matchAt (effectiveRegex rx) (drop (max (nat cursor) (length tx)) tx) = Some n"
      using n by simp
    ultimately show False using Cons.prems(4) by (metis less_irrefl max.cobounded1)
  qed
  have H': "\<forall>i n. nat (max cursor en) \<le> i \<longrightarrow> matchAt (effectiveRegex rx) (drop i tx) = Some n \<longrightarrow>
           0 < n \<and> (\<exists>m\<in>set ms. fst m \<le> int i \<and> int i + int n \<le> snd m)"
  proof (intro allI impI)
    fix i n assume i: "nat (max cursor en) \<le> i" and mt: "matchAt (effectiveRegex rx) (drop i tx) = Some n"
    have ci: "nat cursor \<le> i" using i by simp
    from Cons.prems(4) ci mt have n0: "0 < n"
      and ex: "\<exists>m\<in>set ((start, en) # ms). fst m \<le> int i \<and> int i + int n \<le> snd m"
      using m by blast+
    have "en \<le> int i" using i se cs by (simp add: max_def split: if_splits)
    then have "\<not> (int i + int n \<le> en)" using n0 by simp
    with ex have "\<exists>m\<in>set ms. fst m \<le> int i \<and> int i + int n \<le> snd m" by auto
    with n0 show "0 < n \<and> (\<exists>m\<in>set ms. fst m \<le> int i \<and> int i + int n \<le> snd m)" by simp
  qed
  note IH = Cons.IH[OF inv nn nxt H']
  have gap: "replaceOpencode (slice tx cursor start) r rx = slice tx cursor start"
  proof (rule replaceOpencode_no_match, rule notI)
    let ?g = "slice tx cursor start"
    have g: "?g = take (nat start - nat cursor) (drop (nat cursor) tx)"
      using slice_nonneg[of cursor start tx] Cons.prems(2) cs by simp
    assume "regexTest (effectiveRegex rx) ?g"
    then obtain j where j: "matchAt (effectiveRegex rx) (drop j ?g) \<noteq> None"
      using regexTest_iff by blast
    have jl: "j < length ?g"
    proof (rule ccontr)
      assume "\<not> j < length ?g"
      then have "drop j ?g = []" by simp
      with j empty_none show False by simp
    qed
    have "drop (nat cursor + j) tx = drop j ?g @ drop (nat start - nat cursor - j) (drop (nat cursor + j) tx)"
    proof -
      have "drop j ?g = take (nat start - nat cursor - j) (drop (nat cursor + j) tx)"
        by (simp add: g drop_take add.commute)
      then show ?thesis by (metis append_take_drop_id)
    qed
    then have "matchAt (effectiveRegex rx) (drop (nat cursor + j) tx) \<noteq> None"
      using j matchAt_append by metis
    then obtain n where n: "matchAt (effectiveRegex rx) (drop (nat cursor + j) tx) = Some n" by auto
    from Cons.prems(4) n have
      ex: "\<exists>m\<in>set ((start, en) # ms). fst m \<le> int (nat cursor + j) \<and> int (nat cursor + j) + int n \<le> snd m"
      using m by (metis le_add1)
    have "j < nat start - nat cursor" using jl g by simp
    then have lt: "int (nat cursor + j) < start" using Cons.prems(2) cs by linarith
    have "\<forall>m\<in>set ((start, en) # ms). start \<le> fst m" using later se by auto
    with ex lt show False by fastforce
  qed
  show ?case using IH gap by (simp add: m)
qed

lemma outsidePieces_unchanged:
  assumes "\<forall>i n. matchAt (effectiveRegex rx) (drop i tx) = Some n \<longrightarrow>
           0 < n \<and> (\<exists>rg\<in>set ranges. fst rg \<le> int i \<and> int i + int n \<le> snd rg)"
  shows "map (renderPiece r rx) (outsidePieces tx ranges) = map pieceText (outsidePieces tx ranges)"
proof (cases "ranges = []")
  case True
  have "\<not> regexTest (effectiveRegex rx) tx"
  proof
    assume "regexTest (effectiveRegex rx) tx"
    then obtain j n where "matchAt (effectiveRegex rx) (drop j tx) = Some n"
      using regexTest_iff by fastforce
    with assms True show False by auto
  qed
  then show ?thesis using True by (simp add: outsidePieces_def replaceOpencode_no_match)
next
  case False
  let ?ms = "sanitizeRanges ranges"
  have inv: "mergedInv ?ms" using sanitizeRanges_props by blast
  have nn: "\<forall>m\<in>set ?ms. 0 \<le> fst m" using sanitizeRanges_nonneg by blast
  have H': "\<forall>i n. nat 0 \<le> i \<longrightarrow> matchAt (effectiveRegex rx) (drop i tx) = Some n \<longrightarrow>
           0 < n \<and> (\<exists>m\<in>set ?ms. fst m \<le> int i \<and> int i + int n \<le> snd m)"
  proof (intro allI impI)
    fix i n assume mt: "matchAt (effectiveRegex rx) (drop i tx) = Some n"
    from assms mt obtain rg where n0: "0 < n" and rg: "rg \<in> set ranges"
      and b: "fst rg \<le> int i" "int i + int n \<le> snd rg" by blast
    let ?x = "clampRange rg"
    have x1: "fst ?x \<le> int i" using b by (simp add: clampRange_def)
    have x2: "int i + int n \<le> snd ?x" using b by (simp add: clampRange_def)
    have "fst ?x < snd ?x" using x1 x2 n0 by linarith
    moreover have "?x \<in> set (map clampRange ranges)" using rg by simp
    ultimately have "within ?x ?ms" using sanitizeRanges_props[of ranges] by blast
    then obtain m where mm: "m \<in> set ?ms" and "fst m \<le> fst ?x" "snd ?x \<le> snd m"
      by (auto simp: within_def)
    then have "fst m \<le> int i \<and> int i + int n \<le> snd m"
      using x1 x2 by linarith
    then have "\<exists>m\<in>set ?ms. fst m \<le> int i \<and> int i + int n \<le> snd m"
      using mm by blast
    with n0 show "0 < n \<and> (\<exists>m\<in>set ?ms. fst m \<le> int i \<and> int i + int n \<le> snd m)" by simp
  qed
  from rangePieces_unchanged[OF inv _ nn H', of r] False show ?thesis
    by (simp add: outsidePieces_def)
qed

text \<open>
  C3.  For every text, replacement, matcher and list of ranges (in any order,
  overlapping or not), \<open>replaceOutsideRanges\<close> walks through pieces that make up the
  text (every character lies in exactly one piece) and returns the pieces in that order,
  protected ones as they are and gaps passed through \<open>replaceOpencode\<close>.  In
  particular, when every match of the matcher in the text lies inside one of the given
  ranges, the text is returned unchanged.
\<close>

theorem replaceOutsideRanges_no_duplication:
  "concat (map pieceText (outsidePieces tx ranges)) = tx
   \<and> replaceOutsideRanges tx r ranges rx
       = concat (map (renderPiece r rx) (outsidePieces tx ranges))
   \<and> ((\<forall>i n. matchAt (effectiveRegex rx) (drop i tx) = Some n \<longrightarrow>
           0 < n \<and> (\<exists>rg\<in>set ranges. fst rg \<le> int i \<and> int i + int n \<le> snd rg))
        \<longrightarrow> replaceOutsideRanges tx r ranges rx = tx)"
proof -
  have a: "concat (map pieceText (outsidePieces tx ranges)) = tx"
    by (rule outsidePieces_text)
  have b: "replaceOutsideRanges tx r ranges rx
       = concat (map (renderPiece r rx) (outsidePieces tx ranges))"
    by (rule replaceOutsideRanges_pieces)
  have c: "replaceOutsideRanges tx r ranges rx = tx"
    if "\<forall>i n. matchAt (effectiveRegex rx) (drop i tx) = Some n \<longrightarrow>
           0 < n \<and> (\<exists>rg\<in>set ranges. fst rg \<le> int i \<and> int i + int n \<le> snd rg)"
  proof -
    have "map (renderPiece r rx) (outsidePieces tx ranges) = map pieceText (outsidePieces tx ranges)"
      by (rule outsidePieces_unchanged[OF that])
    then have "concat (map (renderPiece r rx) (outsidePieces tx ranges)) = tx"
      using a by (simp only:)
    then show ?thesis using b by simp
  qed
  from a b c show ?thesis by blast
qed

lemma matchAt_OPENCODE:
  "matchAt OPENCODE_REGEX xs = Some n \<Longrightarrow> n = 8 \<and> 8 \<le> length xs"
  by (auto simp: matchAt_def OPENCODE_REGEX_def litMatches_def split: if_splits)

theorem replaceOutsideRanges_no_duplication_witness:
  "replaceOutsideRanges ''opencode'' ''Renamer'' [(0, 8), (2, 8)] None = ''opencode''
   \<and> matchAt (effectiveRegex None) (drop 0 ''opencode'') = Some 8"
proof -
  have h: "\<forall>i n. matchAt (effectiveRegex None) (drop i ''opencode'') = Some n \<longrightarrow>
        0 < n \<and> (\<exists>rg\<in>set [(0, 8), (2, 8)]. fst rg \<le> int i \<and> int i + int n \<le> snd rg)"
  proof (intro allI impI)
    fix i n assume "matchAt (effectiveRegex None) (drop i ''opencode'') = Some n"
    then have "matchAt OPENCODE_REGEX (drop i ''opencode'') = Some n"
      by (simp add: effectiveRegex_def)
    then have "n = 8 \<and> 8 \<le> length (drop i ''opencode'')"
      by (rule matchAt_OPENCODE)
    moreover have "length (drop i ''opencode'') = 8 - i" by simp
    ultimately have "n = 8 \<and> i = 0" by linarith
    then show "0 < n \<and> (\<exists>rg\<in>set [(0, 8), (2, 8)]. fst rg \<le> int i \<and> int i + int n \<le> snd rg)"
      by simp
  qed
  from replaceOutsideRanges_no_duplication[of "''opencode''" "[(0, 8), (2, 8)]" "''Renamer''" None] h
  have "replaceOutsideRanges ''opencode'' ''Renamer'' [(0, 8), (2, 8)] None = ''opencode''"
    by blast
  moreover have "matchAt (effectiveRegex None) (drop 0 ''opencode'') = Some 8"
    by code_simp
  ultimately show ?thesis by blast
qed

text \<open>
  The repository's test of overlapping ranges, on the current revision and on the earlier
  one: without the merge the overlap \<open>[2, 8]\<close> is emitted a second time.
\<close>

lemma overlapping_ranges_test:
  "replaceOutsideRanges ''opencode opencode'' ''Renamer'' [(0, 8), (2, 8)] None
     = ''opencode Renamer''
   \<and> replaceOutsideRanges_rev1 ''opencode opencode'' ''Renamer'' [(0, 8), (2, 8)]
     = ''opencodeencode Renamer''"
  by code_simp

section \<open>Code spans: results\<close>

lemma joinWith_Cons: "ys \<noteq> [] \<Longrightarrow> joinWith sep (x # ys) = x @ sep @ joinWith sep ys"
  by (cases ys) auto

lemma splitOn_nonempty: "splitOn sep cur t \<noteq> []"
  by (induction sep cur t rule: splitOn.induct) auto

lemma take_eq_append_drop: "take n xs = ys \<Longrightarrow> xs = ys @ drop n xs"
  by (metis append_take_drop_id)

text \<open>Joining the parts of a split gives the text back.\<close>

lemma splitOn_join: "sep \<noteq> [] \<Longrightarrow> joinWith sep (splitOn sep cur t) = cur @ t"
proof (induction sep cur t rule: splitOn.induct)
  case (1 sep cur)
  show ?case by simp
next
  case (2 sep cur c cs)
  show ?case
  proof (cases "take (length sep) (c # cs) = sep")
    case True
    have "c # cs = sep @ drop (length sep) (c # cs)"
      using take_eq_append_drop[OF True] .
    moreover have "drop (length sep) (c # cs) = drop (length sep - 1) cs"
      using "2.prems" by (cases sep) auto
    ultimately have eq: "c # cs = sep @ drop (length sep - 1) cs" by simp
    have "joinWith sep (splitOn sep cur (c # cs))
          = cur @ sep @ joinWith sep (splitOn sep [] (drop (length sep - 1) cs))"
      using True splitOn_nonempty by (simp add: joinWith_Cons)
    also have "\<dots> = cur @ sep @ drop (length sep - 1) cs"
      using "2.IH"(1)[OF True "2.prems"] by simp
    finally show ?thesis using eq by simp
  next
    case False
    then show ?thesis using "2.IH"(2)[OF False "2.prems"] by simp
  qed
qed

lemma split_join: "sep \<noteq> [] \<Longrightarrow> joinWith sep (split t sep) = t"
  by (simp add: split_def splitOn_join)

lemma altPieces_text:
  "\<forall>x. concat (map pieceText (f x)) = x \<Longrightarrow>
   concat (map pieceText (altPieces f d isOdd xs)) = joinWith d xs"
  by (induction f d isOdd xs rule: altPieces.induct) auto

lemma altPieces_render:
  "\<forall>x. concat (map (renderPiece r rx) (f x)) = g x \<Longrightarrow> isOdd = (n mod 2 = 1) \<Longrightarrow>
   concat (map (renderPiece r rx) (altPieces f d isOdd xs))
     = joinWith d (map (\<lambda>(index, x). if index mod 2 = 1 then x else g x) (enumerate n xs))"
proof (induction f d isOdd xs arbitrary: n rule: altPieces.induct)
  case (1 f d isOdd)
  show ?case by simp
next
  case (2 f d isOdd x)
  then show ?case by auto
next
  case (3 f d isOdd x y ys)
  have "(\<not> isOdd) = (Suc n mod 2 = 1)" using "3.prems"(2) by presburger
  from "3.IH"[OF "3.prems"(1) this] "3.prems" show ?case by auto
qed

lemma segmentPieces_text: "concat (map pieceText (segmentPieces s)) = s"
  by (simp add: segmentPieces_def outsidePieces_text)

lemma segmentPieces_render:
  "concat (map (renderPiece r rx) (segmentPieces s)) = replaceExcludingUrlsAndPaths s r rx"
  by (simp add: segmentPieces_def replaceExcludingUrlsAndPaths_def replaceOutsideRanges_pieces)

lemma inlinePieces_text: "concat (map pieceText (inlinePieces b)) = b"
  by (simp add: inlinePieces_def altPieces_text segmentPieces_text split_join)

lemma inlinePieces_render:
  "concat (map (renderPiece r rx) (inlinePieces b)) = replaceInInlineCodeSegments b r rx"
  using altPieces_render[of r rx segmentPieces "\<lambda>s. replaceExcludingUrlsAndPaths s r rx" False 0
          "[backtick]" "split b [backtick]"]
  by (simp add: inlinePieces_def replaceInInlineCodeSegments_def mapEvenIndexed_def
        segmentPieces_render)

lemma textPieces_text: "concat (map pieceText (textPieces tx)) = tx"
  by (simp add: textPieces_def altPieces_text inlinePieces_text split_join fence_def)

lemma textPieces_render:
  "concat (map (renderPiece r rx) (textPieces tx)) = replaceInText tx r rx"
  using altPieces_render[of r rx inlinePieces "\<lambda>b. replaceInInlineCodeSegments b r rx" False 0
          fence "split tx fence"]
  by (simp add: textPieces_def replaceInText_def mapEvenIndexed_def inlinePieces_render fence_def)

lemma altPieces_Code:
  "j < length xs \<Longrightarrow> odd j \<noteq> isOdd \<Longrightarrow> Code (xs ! j) \<in> set (altPieces f d isOdd xs)"
proof (induction f d isOdd xs arbitrary: j rule: altPieces.induct)
  case (1 f d isOdd)
  then show ?case by simp
next
  case (2 f d isOdd x)
  then show ?case by auto
next
  case (3 f d isOdd x y ys)
  show ?case
  proof (cases j)
    case 0
    with "3.prems" show ?thesis by auto
  next
    case (Suc i)
    with "3.prems" have "i < length (y # ys)" "odd i \<noteq> (\<not> isOdd)" by auto
    from "3.IH"[OF this] Suc show ?thesis by simp
  qed
qed

lemma altPieces_sub:
  "j < length xs \<Longrightarrow> odd j = isOdd \<Longrightarrow> set (f (xs ! j)) \<subseteq> set (altPieces f d isOdd xs)"
proof (induction f d isOdd xs arbitrary: j rule: altPieces.induct)
  case (1 f d isOdd)
  then show ?case by simp
next
  case (2 f d isOdd x)
  then show ?case by auto
next
  case (3 f d isOdd x y ys)
  show ?case
  proof (cases j)
    case 0
    with "3.prems" show ?thesis by auto
  next
    case (Suc i)
    with "3.prems" have "i < length (y # ys)" "odd i = (\<not> isOdd)" by auto
    from "3.IH"[OF this] Suc show ?thesis by auto
  qed
qed

lemma altPieces_set:
  "p \<in> set (altPieces f d isOdd xs) \<Longrightarrow>
   p = Delim d \<or> (\<exists>x\<in>set xs. p = Code x \<or> p \<in> set (f x))"
  by (induction f d isOdd xs rule: altPieces.induct) (auto split: if_splits)

lemma splitOn_single_free:
  "c \<notin> set cur \<Longrightarrow> s \<in> set (splitOn [c] cur t) \<Longrightarrow> c \<notin> set s"
proof (induction "[c]" cur t rule: splitOn.induct)
  case (1 cur)
  then show ?case by simp
next
  case (2 cur x xs)
  show ?case
  proof (cases "x = c")
    case True
    with "2.prems" have "s = cur \<or> s \<in> set (splitOn [c] [] xs)" by simp
    then show ?thesis
    proof
      assume "s = cur"
      with "2.prems" show ?thesis by simp
    next
      assume "s \<in> set (splitOn [c] [] xs)"
      with "2.hyps"(1) True show ?thesis by simp
    qed
  next
    case False
    with "2.prems" have "s \<in> set (splitOn [c] (cur @ [x]) xs)" by simp
    moreover have "c \<notin> set (cur @ [x])" using "2.prems" False by simp
    ultimately show ?thesis using "2.hyps"(2) False by simp
  qed
qed

lemma piece_in_text:
  assumes "p \<in> set ps"
  shows "set (pieceText p) \<subseteq> set (concat (map pieceText ps))"
  using assms by auto

lemma textPieces_Gap_free:
  assumes "Gap g \<in> set (textPieces tx)"
  shows "backtick \<notin> set g"
proof -
  from assms have ne: "tx \<noteq> []" by (auto simp: textPieces_def split: if_splits)
  with assms have "Gap g \<in> set (altPieces inlinePieces fence False (split tx fence))"
    by (simp add: textPieces_def)
  from altPieces_set[OF this] obtain b where "Gap g \<in> set (inlinePieces b)" by auto
  then have "Gap g \<in> set (altPieces segmentPieces [backtick] False (split b [backtick]))"
    by (simp add: inlinePieces_def)
  from altPieces_set[OF this] obtain sg where sg: "sg \<in> set (split b [backtick])"
    and g: "Gap g \<in> set (segmentPieces sg)" by auto
  have "backtick \<notin> set sg" using splitOn_single_free[of backtick "[]" sg b] sg
    by (simp add: split_def)
  moreover have "set g \<subseteq> set sg"
    using piece_in_text[OF g] by (simp only: segmentPieces_text pieceText.simps)
  ultimately show ?thesis by blast
qed

text \<open>
  C2.  The text is made up of the pieces of \<open>textPieces\<close>, and \<open>replaceInText\<close> returns
  these pieces in the same order, each rendered on its own; \<open>renderPiece\<close> changes none
  but gaps.  Every part at an odd index of the split at three backticks is one code
  piece, and so is every part at an odd index of the split at one backtick of a part at
  an even index.  No gap contains a backtick, so every backtick of the text lies in a
  piece that is copied.
\<close>

theorem code_spans_copied:
  "concat (map pieceText (textPieces tx)) = tx
   \<and> replaceInText tx r rx = concat (map (renderPiece r rx) (textPieces tx))
   \<and> (\<forall>j < length (split tx fence). odd j \<longrightarrow>
         Code (split tx fence ! j) \<in> set (textPieces tx))
   \<and> (\<forall>j < length (split tx fence). \<forall>k < length (split (split tx fence ! j) [backtick]).
         even j \<and> odd k \<longrightarrow>
         Code (split (split tx fence ! j) [backtick] ! k) \<in> set (textPieces tx))
   \<and> (\<forall>g. Gap g \<in> set (textPieces tx) \<longrightarrow> backtick \<notin> set g)"
proof -
  have ne: "tx \<noteq> []" if "j < length (split tx fence)" "odd j" for j
  proof
    assume "tx = []"
    with that show False by (simp add: split_def)
  qed
  have c: "Code (split tx fence ! j) \<in> set (textPieces tx)"
    if "j < length (split tx fence)" "odd j" for j
    using altPieces_Code[of j "split tx fence" False inlinePieces fence] that ne[OF that]
    by (simp add: textPieces_def)
  have d: "Code (split (split tx fence ! j) [backtick] ! k) \<in> set (textPieces tx)"
    if j: "j < length (split tx fence)" and k: "k < length (split (split tx fence ! j) [backtick])"
      and par: "even j \<and> odd k" for j k
  proof (cases "tx = []")
    case True
    with j have "j = 0" by (simp add: split_def)
    with k par True show ?thesis by (simp add: split_def)
  next
    case False
    have "Code (split (split tx fence ! j) [backtick] ! k) \<in> set (inlinePieces (split tx fence ! j))"
      using altPieces_Code[of k "split (split tx fence ! j) [backtick]" False segmentPieces "[backtick]"]
        k par by (simp add: inlinePieces_def)
    moreover have "set (inlinePieces (split tx fence ! j)) \<subseteq> set (textPieces tx)"
      using altPieces_sub[of j "split tx fence" False inlinePieces fence] j par False
      by (simp add: textPieces_def)
    ultimately show ?thesis by blast
  qed
  show ?thesis
    using textPieces_text[of tx] textPieces_render[of r rx tx] c d textPieces_Gap_free[of _ tx]
    by (simp del: split_paired_All)
qed

lemma code_span_example:
  "split (''use '' @ backtick # ''opencode'' @ backtick # '' opencode'') fence
     = [''use '' @ backtick # ''opencode'' @ backtick # '' opencode'']
   \<and> split (''use '' @ backtick # ''opencode'' @ backtick # '' opencode'') [backtick]
     = [''use '', ''opencode'', '' opencode'']"
  by code_simp

theorem code_spans_copied_witness:
  "Code ''opencode''
     \<in> set (textPieces (''use '' @ backtick # ''opencode'' @ backtick # '' opencode''))
   \<and> replaceInText (''use '' @ backtick # ''opencode'' @ backtick # '' opencode'') ''Renamer'' None
     = ''use '' @ backtick # ''opencode'' @ backtick # '' Renamer''"
proof -
  let ?t = "''use '' @ backtick # ''opencode'' @ backtick # '' opencode''"
  have j: "0 < length (split ?t fence)" using code_span_example by simp
  have k: "1 < length (split (split ?t fence ! 0) [backtick])" using code_span_example by simp
  have e: "split (split ?t fence ! 0) [backtick] ! 1 = ''opencode''"
    using code_span_example by simp
  from code_spans_copied[of ?t "''Renamer''" None]
  have "\<forall>j < length (split ?t fence). \<forall>k < length (split (split ?t fence ! j) [backtick]).
         even j \<and> odd k \<longrightarrow>
         Code (split (split ?t fence ! j) [backtick] ! k) \<in> set (textPieces ?t)"
    by blast
  with j k have "Code (split (split ?t fence ! 0) [backtick] ! 1) \<in> set (textPieces ?t)"
    by (metis even_zero odd_one)
  then have "Code ''opencode'' \<in> set (textPieces ?t)" using e by simp
  moreover have "replaceInText ?t ''Renamer'' None
     = ''use '' @ backtick # ''opencode'' @ backtick # '' Renamer''" by code_simp
  ultimately show ?thesis by blast
qed

section \<open>The scan of one gap\<close>










section \<open>The default matcher\<close>

lemma of_char_lt: "(of_char c :: nat) < 256"
  by (metis of_char_mod_256 mod_less_divisor zero_less_numeral)














section \<open>One pass, and a second pass\<close>




section \<open>The scan position: results\<close>

text \<open>
  Each function with the position passed along returns the result of the function
  without it, and leaves the position at 0, or where it was when it returns its input.
\<close>

lemma replaceOpencodeS_eq:
  "\<exists>l. replaceOpencodeS tx r rx li = (replaceOpencode tx r rx, l) \<and> (l = 0 \<or> l = li)"
  by (simp add: replaceOpencodeS_def replaceOpencode_def effectiveRegex_def)

lemma regexTestS_zero: "fst (regexTestS rx tx 0) = regexTest rx tx"
proof -
  have "\<And>pos. (findMatch rx pos tx \<noteq> None) = regexTest rx tx"
    by (induction tx) (auto split: option.splits)
  then have fm: "(findMatch rx 0 tx \<noteq> None) = regexTest rx tx" .
  show ?thesis
  proof (cases "findMatch rx 0 tx")
    case None
    with fm show ?thesis by (simp add: regexTestS_def)
  next
    case (Some e)
    with fm show ?thesis by (simp add: regexTestS_def)
  qed
qed

lemma regexTestS_False: "regexTestS rx tx li = (False, l) \<Longrightarrow> l = 0"
  by (auto simp: regexTestS_def split: if_splits option.splits)

lemma outsideLoopS_eq:
  "\<exists>l. outsideLoopS tx r rx ms cursor result li
         = (fst (outsideLoop tx r rx ms cursor result),
            snd (outsideLoop tx r rx ms cursor result), l)
       \<and> (l = 0 \<or> l = li)"
proof (induction ms arbitrary: cursor result li)
  case Nil
  show ?case by simp
next
  case (Cons m ms)
  obtain start en where m: "m = (start, en)" by (cases m)
  show ?case
  proof (cases "start > cursor")
    case True
    obtain l1 where l1: "replaceOpencodeS (slice tx cursor start) r rx li
                          = (replaceOpencode (slice tx cursor start) r rx, l1)"
      and d1: "l1 = 0 \<or> l1 = li"
      using replaceOpencodeS_eq by blast
    let ?res = "(result @ replaceOpencode (slice tx cursor start) r rx) @ slice tx start en"
    from Cons.IH[of "max cursor en" ?res l1] obtain l where
      l: "outsideLoopS tx r rx ms (max cursor en) ?res l1
           = (fst (outsideLoop tx r rx ms (max cursor en) ?res),
              snd (outsideLoop tx r rx ms (max cursor en) ?res), l)"
      and d: "l = 0 \<or> l = l1" by blast
    have "outsideLoopS tx r rx (m # ms) cursor result li
          = (fst (outsideLoop tx r rx (m # ms) cursor result),
             snd (outsideLoop tx r rx (m # ms) cursor result), l)"
      using True m l1 l by (simp add: Let_def)
    moreover have "l = 0 \<or> l = li" using d d1 by auto
    ultimately show ?thesis by blast
  next
    case False
    let ?res = "result @ slice tx start en"
    from Cons.IH[of "max cursor en" ?res li] obtain l where
      l: "outsideLoopS tx r rx ms (max cursor en) ?res li
           = (fst (outsideLoop tx r rx ms (max cursor en) ?res),
              snd (outsideLoop tx r rx ms (max cursor en) ?res), l)"
      and d: "l = 0 \<or> l = li" by blast
    have "outsideLoopS tx r rx (m # ms) cursor result li
          = (fst (outsideLoop tx r rx (m # ms) cursor result),
             snd (outsideLoop tx r rx (m # ms) cursor result), l)"
      using False m l by (simp add: Let_def)
    with d show ?thesis by blast
  qed
qed

lemma replaceOutsideRangesS_eq:
  "\<exists>l. replaceOutsideRangesS tx r ranges rx li = (replaceOutsideRanges tx r ranges rx, l)
       \<and> (l = 0 \<or> l = li)"
proof (cases "ranges = []")
  case True
  then show ?thesis
    using replaceOpencodeS_eq[of tx r rx li]
    by (simp add: replaceOutsideRangesS_def replaceOutsideRanges_def)
next
  case False
  let ?ms = "sanitizeRanges ranges"
  obtain c res where cr: "outsideLoop tx r rx ?ms 0 [] = (c, res)"
    by (cases "outsideLoop tx r rx ?ms 0 []")
  from outsideLoopS_eq[of tx r rx ?ms 0 "[]" li] cr obtain l1 where
    l1: "outsideLoopS tx r rx ?ms 0 [] li = (c, res, l1)" and d1: "l1 = 0 \<or> l1 = li"
    by auto
  show ?thesis
  proof (cases "c < int (length tx)")
    case True
    obtain l2 where l2: "replaceOpencodeS (sliceFrom tx c) r rx l1
                          = (replaceOpencode (sliceFrom tx c) r rx, l2)"
      and d2: "l2 = 0 \<or> l2 = l1"
      using replaceOpencodeS_eq by blast
    have "replaceOutsideRangesS tx r ranges rx li = (replaceOutsideRanges tx r ranges rx, l2)"
      using False True cr l1 l2 by (simp add: replaceOutsideRangesS_def replaceOutsideRanges_def)
    moreover have "l2 = 0 \<or> l2 = li" using d1 d2 by auto
    ultimately show ?thesis by blast
  next
    case c: False
    have "replaceOutsideRangesS tx r ranges rx li = (replaceOutsideRanges tx r ranges rx, l1)"
      using False c cr l1 by (simp add: replaceOutsideRangesS_def replaceOutsideRanges_def)
    with d1 show ?thesis by blast
  qed
qed

lemma replaceExcludingUrlsAndPathsS_eq:
  "\<exists>l. replaceExcludingUrlsAndPathsS tx r rx li = (replaceExcludingUrlsAndPaths tx r rx, l)
       \<and> (l = 0 \<or> l = li)"
  using replaceOutsideRangesS_eq
  by (simp add: replaceExcludingUrlsAndPathsS_def replaceExcludingUrlsAndPaths_def)

lemma mapEvenIndexedS_eq:
  assumes "\<And>x li. \<exists>l. f x li = (g x, l) \<and> (l = 0 \<or> l = li)"
  shows "\<exists>l. mapEvenIndexedS f n xs li
              = (map (\<lambda>(index, x). if index mod 2 = 1 then x else g x) (enumerate n xs), l)
            \<and> (l = 0 \<or> l = li)"
proof (induction xs arbitrary: n li)
  case Nil
  show ?case by simp
next
  case (Cons x xs)
  obtain y l1 where y: "(if n mod 2 = 1 then (x, li) else f x li) = (y, l1)"
    and yv: "y = (if n mod 2 = 1 then x else g x)" and d1: "l1 = 0 \<or> l1 = li"
    using assms[of x li] by (cases "n mod 2 = 1") auto
  from Cons.IH[of "Suc n" l1] obtain l where
    l: "mapEvenIndexedS f (Suc n) xs l1
        = (map (\<lambda>(index, x). if index mod 2 = 1 then x else g x) (enumerate (Suc n) xs), l)"
    and d: "l = 0 \<or> l = l1" by blast
  have "mapEvenIndexedS f n (x # xs) li
        = (map (\<lambda>(index, x). if index mod 2 = 1 then x else g x) (enumerate n (x # xs)), l)"
    using y yv l by auto
  moreover have "l = 0 \<or> l = li" using d d1 by auto
  ultimately show ?case by blast
qed

lemma replaceInInlineCodeSegmentsS_eq:
  "\<exists>l. replaceInInlineCodeSegmentsS tx r rx li = (replaceInInlineCodeSegments tx r rx, l)
       \<and> (l = 0 \<or> l = li)"
proof -
  from mapEvenIndexedS_eq[of "\<lambda>segment. replaceExcludingUrlsAndPathsS segment r rx"
         "\<lambda>segment. replaceExcludingUrlsAndPaths segment r rx" 0 "split tx [backtick]" li]
    replaceExcludingUrlsAndPathsS_eq
  obtain l where "mapEvenIndexedS (\<lambda>segment. replaceExcludingUrlsAndPathsS segment r rx) 0
                    (split tx [backtick]) li
                  = (mapEvenIndexed (\<lambda>segment. replaceExcludingUrlsAndPaths segment r rx)
                       (split tx [backtick]), l)"
    and "l = 0 \<or> l = li"
    unfolding mapEvenIndexed_def by blast
  then show ?thesis
    by (simp add: replaceInInlineCodeSegmentsS_def replaceInInlineCodeSegments_def)
qed

lemma replaceInTextS_eq:
  "\<exists>l. replaceInTextS tx r rx li = (replaceInText tx r rx, l) \<and> (l = 0 \<or> l = li)"
proof (cases "tx = []")
  case True
  then show ?thesis by (simp add: replaceInTextS_def replaceInText_def)
next
  case False
  from mapEvenIndexedS_eq[of "\<lambda>block. replaceInInlineCodeSegmentsS block r rx"
         "\<lambda>block. replaceInInlineCodeSegments block r rx" 0
         "split tx [backtick, backtick, backtick]" li]
    replaceInInlineCodeSegmentsS_eq
  obtain l where "mapEvenIndexedS (\<lambda>block. replaceInInlineCodeSegmentsS block r rx) 0
                    (split tx [backtick, backtick, backtick]) li
                  = (mapEvenIndexed (\<lambda>block. replaceInInlineCodeSegments block r rx)
                       (split tx [backtick, backtick, backtick]), l)"
    and "l = 0 \<or> l = li"
    unfolding mapEvenIndexed_def by blast
  then show ?thesis using False
    by (simp add: replaceInTextS_def replaceInText_def)
qed

lemma replaceInTextS_zero: "replaceInTextS tx r rx 0 = (replaceInText tx r rx, 0)"
  using replaceInTextS_eq[of tx r rx 0] by auto

text \<open>
  C8.  Started with the scan position at 0, \<open>updateSessionTitleIfNeeded\<close> leaves it at
  0, and so does \<open>replaceInText\<close>, the only other use of the matcher: no position is
  carried from one invocation to the next.  Hence a second call with the same arguments
  returns what the first returned, and a title in which the matcher finds a match is
  rewritten by \<open>replaceInText\<close> each time.
\<close>

theorem updateSessionTitle_deterministic:
  "snd (updateSessionTitleIfNeeded title r regex 0) = 0
   \<and> snd (replaceInTextS tx r regex 0) = 0
   \<and> updateSessionTitleIfNeeded title r regex (snd (updateSessionTitleIfNeeded title r regex 0))
       = updateSessionTitleIfNeeded title r regex 0
   \<and> (\<forall>t. title = Some t \<and> regexTest (effectiveRegex regex) t \<longrightarrow>
         fst (updateSessionTitleIfNeeded title r regex 0) = Some (replaceInText t r regex))"
proof -
  have a: "snd (updateSessionTitleIfNeeded title r regex 0) = 0"
  proof (cases title)
    case None
    then show ?thesis by (simp add: updateSessionTitleIfNeeded_def)
  next
    case (Some t)
    show ?thesis
    proof (cases "t = []")
      case True
      with Some show ?thesis by (simp add: updateSessionTitleIfNeeded_def)
    next
      case False
      obtain b l where t: "regexTestS (effectiveRegex regex) t 0 = (b, l)"
        by (cases "regexTestS (effectiveRegex regex) t 0")
      show ?thesis
      proof (cases b)
        case True
        with Some False t show ?thesis
          by (simp add: updateSessionTitleIfNeeded_def replaceInTextS_zero)
      next
        case b: False
        with t have "l = 0" using regexTestS_False[of "effectiveRegex regex" t 0 l] by simp
        with Some False t b show ?thesis by (simp add: updateSessionTitleIfNeeded_def)
      qed
    qed
  qed
  have b: "snd (replaceInTextS tx r regex 0) = 0" by (simp add: replaceInTextS_zero)
  have c: "fst (updateSessionTitleIfNeeded title r regex 0) = Some (replaceInText t r regex)"
    if tt: "title = Some t" and rt: "regexTest (effectiveRegex regex) t" for t
  proof (cases "t = []")
    case True
    then show ?thesis using tt
      by (simp add: updateSessionTitleIfNeeded_def replaceInText_def)
  next
    case False
    obtain l where "regexTestS (effectiveRegex regex) t 0 = (True, l)"
      using regexTestS_zero[of "effectiveRegex regex" t] rt
      by (cases "regexTestS (effectiveRegex regex) t 0") auto
    then show ?thesis using tt False
      by (simp add: updateSessionTitleIfNeeded_def replaceInTextS_zero)
  qed
  from a b c show ?thesis by simp
qed

theorem updateSessionTitle_deterministic_witness:
  "regexTest (effectiveRegex None) ''opencode session''
   \<and> fst (updateSessionTitleIfNeeded (Some ''opencode session'') ''Renamer'' None 0)
       = Some (replaceInText ''opencode session'' ''Renamer'' None)
   \<and> replaceInText ''opencode session'' ''Renamer'' None = ''Renamer session''"
proof -
  have h: "regexTest (effectiveRegex None) ''opencode session''" by code_simp
  from updateSessionTitle_deterministic[of "Some ''opencode session''" "''Renamer''" None "[]"] h
  have "fst (updateSessionTitleIfNeeded (Some ''opencode session'') ''Renamer'' None 0)
       = Some (replaceInText ''opencode session'' ''Renamer'' None)"
    by blast
  moreover have "replaceInText ''opencode session'' ''Renamer'' None = ''Renamer session''"
    by code_simp
  ultimately show ?thesis using h by blast
qed

text \<open>
  The earlier revision leaves a position behind when \<open>test\<close> succeeds and the title has
  no text outside code spans; the next call, on another title, then misses a match.
  The current revision rewrites that title.
\<close>

lemma rev1_carries_position:
  "updateSessionTitleIfNeeded_rev1 (Some (backtick # ''opencode'' @ [backtick])) ''Renamer'' 0
     = (Some (backtick # ''opencode'' @ [backtick]), 9)
   \<and> updateSessionTitleIfNeeded_rev1 (Some ''opencode!'') ''Renamer'' 9
     = (Some ''opencode!'', 0)
   \<and> updateSessionTitleIfNeeded (Some ''opencode!'') ''Renamer'' None 0
     = (Some ''Renamer!'', 0)"
  by code_simp

section \<open>URL and path detection: results\<close>

lemma litMatches_take:
  "length lit \<le> n \<Longrightarrow> litMatches ic lit (take n tx) = litMatches ic lit tx"
  by (auto simp: litMatches_def min_def)

lemma litMatches_False_iff:
  "litMatches False lit tx = (length lit \<le> length tx \<and> take (length lit) tx = lit)"
  by (simp add: litMatches_def)

lemma runLength_pos_drop:
  "0 < runLength (drop k t) \<longleftrightarrow> k < length t \<and> \<not> isTerminator (t ! k)"
proof (cases "k < length t")
  case True
  then have "drop k t = t ! k # drop (Suc k) t" by (simp add: Cons_nth_drop_Suc)
  then show ?thesis using True by (simp add: runLength_def)
next
  case False
  then show ?thesis by (simp add: runLength_def)
qed

lemma runLength_le: "runLength t \<le> length t"
  by (simp add: runLength_def length_takeWhile_le)

lemma run_nonterm: "c \<in> set (take (runLength t) t) \<Longrightarrow> \<not> isTerminator c"
proof -
  assume "c \<in> set (take (runLength t) t)"
  then have "c \<in> set (takeWhile (\<lambda>c. \<not> isTerminator c) t)"
    by (simp add: runLength_def takeWhile_eq_take[symmetric])
  then show ?thesis by (auto dest: set_takeWhileD)
qed

lemma run_stops: "runLength t < length t \<Longrightarrow> isTerminator (t ! runLength t)"
  using nth_length_takeWhile[of "\<lambda>c. \<not> isTerminator c" t] by (simp add: runLength_def)

lemma runLength_append_exact:
  assumes "runLength (xs @ b) = length xs" "b' = [] \<or> isTerminator (hd b')"
  shows "runLength (xs @ b') = length xs"
proof -
  have all: "\<forall>x\<in>set xs. \<not> isTerminator x"
  proof
    fix x assume "x \<in> set xs"
    then have "x \<in> set (take (runLength (xs @ b)) (xs @ b))" using assms(1) by simp
    then show "\<not> isTerminator x" by (rule run_nonterm)
  qed
  have "takeWhile (\<lambda>c. \<not> isTerminator c) b' = []"
    using assms(2) by (cases b') auto
  then show ?thesis using all by (simp add: runLength_def takeWhile_append2)
qed

lemma char_eq_code: "(c = d) = ((of_char c :: nat) = of_char d)"
  by (metis char_of_char)

lemma isTerminator_code:
  "isTerminator c \<longleftrightarrow> (of_char c :: nat) \<in> {9, 10, 11, 12, 13, 32, 160, 96, 34, 39, 41, 93}"
  by (auto simp: isTerminator_def isSpace_def backtick_def char_eq_code[of c])

lemma isLetter_nonterm: "isLetter c \<Longrightarrow> \<not> isTerminator c"
  by (auto simp: isLetter_def Let_def isTerminator_code)

lemma isLetter_upper: "isLetter (toUpperChar c) \<Longrightarrow> isLetter c"
  by (auto simp: toUpperChar_def isLetter_def Let_def split: if_splits)

lemma upper_letter_nonterm:
  assumes "toUpperChar c = toUpperChar l" "isLetter l"
  shows "\<not> isTerminator c"
proof -
  have "isLetter (toUpperChar l)"
    using assms(2) of_char_lt[of l]
    by (auto simp: toUpperChar_def isLetter_def Let_def)
  then have "isLetter c" using assms(1) isLetter_upper by metis
  then show ?thesis by (rule isLetter_nonterm)
qed

lemma lit_colon: "litMatches False ''://'' t = (3 \<le> length t \<and> take 3 t = ''://'')"
  by (simp add: litMatches_def numeral_3_eq_3)

lemma upper_s_colon: "toUpperChar (CHR '':'') \<noteq> toUpperChar (CHR ''s'')"
  by code_simp

text \<open>
  The part in front of the run is recognised at a text exactly when the text is longer
  than that part, the part has the right form, and the next character can start the run.
\<close>

lemma urlPrefix_iff:
  "urlPrefix tx = Some k \<longleftrightarrow> k < length tx \<and> urlHead (take k tx) \<and> \<not> isTerminator (tx ! k)"
proof
  assume a: "urlPrefix tx = Some k"
  then have h: "litMatches True ''http'' tx" by (auto simp: urlPrefix_def split: if_splits)
  show "k < length tx \<and> urlHead (take k tx) \<and> \<not> isTerminator (tx ! k)"
  proof (cases "litMatches True ''s'' (drop 4 tx)")
    case True
    with a h have c: "litMatches False ''://'' (drop 5 tx)" and r: "0 < runLength (drop 8 tx)"
      and k: "k = 8" by (auto simp: urlPrefix_def Let_def split: if_splits)
    have "drop 5 (take 8 tx) = ''://''"
      using c by (simp add: lit_colon drop_take)
    moreover have "litMatches True ''s'' (drop 4 (take 8 tx))"
      using True litMatches_take[of "''s''" 4 True "drop 4 tx"] by (simp add: drop_take)
    moreover have "litMatches True ''http'' (take 8 tx)"
      using h litMatches_take[of "''http''" 8 True tx] by simp
    ultimately have "urlHead (take 8 tx)" by (simp add: urlHead_def)
    then show ?thesis using r k runLength_pos_drop by simp
  next
    case False
    with a h have c: "litMatches False ''://'' (drop 4 tx)" and r: "0 < runLength (drop 7 tx)"
      and k: "k = 7" by (auto simp: urlPrefix_def Let_def split: if_splits)
    have "drop 4 (take 7 tx) = ''://''"
      using c by (simp add: lit_colon drop_take)
    moreover have "litMatches True ''http'' (take 7 tx)"
      using h litMatches_take[of "''http''" 7 True tx] by simp
    ultimately have "urlHead (take 7 tx)" by (simp add: urlHead_def)
    then show ?thesis using r k runLength_pos_drop by simp
  qed
next
  assume a: "k < length tx \<and> urlHead (take k tx) \<and> \<not> isTerminator (tx ! k)"
  then have kl: "k < length tx" and uh: "urlHead (take k tx)" and nt: "\<not> isTerminator (tx ! k)"
    by auto
  have r: "0 < runLength (drop k tx)" using kl nt runLength_pos_drop by simp
  from uh have h4: "litMatches True ''http'' (take k tx)" by (simp add: urlHead_def)
  then have k4: "4 \<le> k" using kl by (simp add: litMatches_def)
  have h: "litMatches True ''http'' tx"
    using h4 litMatches_take[of "''http''" k True tx] k4 by simp
  from uh consider (plain) "drop 4 (take k tx) = ''://''"
    | (secure) "litMatches True ''s'' (drop 4 (take k tx))" "drop 5 (take k tx) = ''://''"
    by (auto simp: urlHead_def)
  then show "urlPrefix tx = Some k"
  proof cases
    case plain
    then have "length (drop 4 (take k tx)) = 3" by simp
    then have k7: "k = 7" using kl by simp
    have t: "take 3 (drop 4 tx) = ''://''" using plain k7 by (simp add: drop_take)
    then have c: "litMatches False ''://'' (drop 4 tx)"
      using kl k7 by (simp add: lit_colon)
    from t have "(take 3 (drop 4 tx)) ! 0 = CHR '':''" by simp
    then have "tx ! 4 = CHR '':''" using kl k7 by simp
    moreover have "drop 4 tx = tx ! 4 # drop 5 tx"
      using kl k7 Cons_nth_drop_Suc[of 4 tx] by simp
    ultimately have "drop 4 tx = CHR '':'' # drop 5 tx" by simp
    then have "\<not> litMatches True ''s'' (drop 4 tx)"
      using upper_s_colon by (simp add: litMatches_def toUpperCase_def)
    then show ?thesis using h c r k7 by (simp add: urlPrefix_def)
  next
    case secure
    then have "length (drop 5 (take k tx)) = 3" by simp
    then have k8: "k = 8" using kl by simp
    have t: "take 3 (drop 5 tx) = ''://''" using secure(2) k8 by (simp add: drop_take)
    then have c: "litMatches False ''://'' (drop 5 tx)"
      using kl k8 by (simp add: lit_colon)
    have s: "litMatches True ''s'' (drop 4 tx)"
      using secure(1) k8 litMatches_take[of "''s''" 4 True "drop 4 tx"] by (simp add: drop_take)
    show ?thesis using h c r k8 s by (simp add: urlPrefix_def)
  qed
qed

lemma runLength_pos_Cons: "0 < runLength (c # cs) \<longleftrightarrow> \<not> isTerminator c"
  by (simp add: runLength_def)

lemma runLength_Nil: "runLength [] = 0"
  by (simp add: runLength_def)

lemma lit2: "litMatches False [x, y] t = (2 \<le> length t \<and> take 2 t = [x, y])"
  by (simp add: litMatches_def numeral_2_eq_2)

lemma lit3: "litMatches False [x, y, z] t = (3 \<le> length t \<and> take 3 t = [x, y, z])"
  by (simp add: litMatches_def numeral_3_eq_3)

lemma not_letter_path: "\<not> isLetter (CHR ''~'')" "\<not> isLetter (CHR ''.'')"
  by code_simp+

lemma take_hd: "take n t = x # xs \<Longrightarrow> \<exists>t'. t = x # t'"
  by (cases t) (auto split: nat.splits simp: take_Cons)

lemma pathPrefix_iff:
  "pathPrefix prev tx = Some k \<longleftrightarrow>
     k < length tx \<and> pathHead prev (take k tx) \<and> \<not> isTerminator (tx ! k)"
proof
  assume a: "pathPrefix prev tx = Some k"
  let ?drive = "(case tx of c # _ \<Rightarrow> isLetter c | [] \<Rightarrow> False) \<and> wordBoundaryBefore prev
                 \<and> litMatches False [CHR '':'', backslash] (drop 1 tx) \<and> 0 < runLength (drop 3 tx)"
  have def: "pathPrefix prev tx =
     (if ?drive then Some 3
      else if litMatches False ''~/'' tx \<and> 0 < runLength (drop 2 tx) then Some 2
      else if litMatches False ''../'' tx \<and> 0 < runLength (drop 3 tx) then Some 3
      else if litMatches False ''./'' tx \<and> 0 < runLength (drop 2 tx) then Some 2
      else None)"
    by (simp add: pathPrefix_def wordBoundaryBefore_def)
  from a def consider
      (drive) "?drive" "k = 3"
    | (home) "litMatches False ''~/'' tx" "0 < runLength (drop 2 tx)" "k = 2"
    | (up) "litMatches False ''../'' tx" "0 < runLength (drop 3 tx)" "k = 3"
    | (here) "litMatches False ''./'' tx" "0 < runLength (drop 2 tx)" "k = 2"
    by (auto split: if_splits)
  then show "k < length tx \<and> pathHead prev (take k tx) \<and> \<not> isTerminator (tx ! k)"
  proof cases
    case drive
    then obtain c t1 where tx: "tx = c # t1" and l: "isLetter c" by (cases tx) auto
    from drive(1) tx have "take 2 t1 = [CHR '':'', backslash]" by (simp add: lit2)
    then have "take 3 tx = c # [CHR '':'', backslash]" using tx by (simp add: take_Cons')
    then have "pathHead prev (take 3 tx)" using l drive(1) by (simp add: pathHead_def)
    then show ?thesis using drive runLength_pos_drop by simp
  next
    case home
    then have "pathHead prev (take 2 tx)" by (simp add: lit2 pathHead_def)
    then show ?thesis using home runLength_pos_drop by simp
  next
    case up
    then have "pathHead prev (take 3 tx)" by (simp add: lit3 pathHead_def)
    then show ?thesis using up runLength_pos_drop by simp
  next
    case here
    then have "pathHead prev (take 2 tx)" by (simp add: lit2 pathHead_def)
    then show ?thesis using here runLength_pos_drop by simp
  qed
next
  assume a: "k < length tx \<and> pathHead prev (take k tx) \<and> \<not> isTerminator (tx ! k)"
  then have kl: "k < length tx" and nt: "\<not> isTerminator (tx ! k)" by auto
  have r: "0 < runLength (drop k tx)" using kl nt runLength_pos_drop by simp
  have lk: "length (take k tx) = k" using kl by simp
  from a consider
      (drive) c where "take k tx = c # [CHR '':'', backslash]" "isLetter c" "wordBoundaryBefore prev"
    | (home) "take k tx = ''~/''"
    | (up) "take k tx = ''../''"
    | (here) "take k tx = ''./''"
    by (auto simp: pathHead_def split: list.splits)
  then show "pathPrefix prev tx = Some k"
  proof cases
    case drive
    from drive(1) lk have k3: "k = 3" by simp
    from take_hd[OF drive(1)] obtain t1 where tx: "tx = c # t1" ..
    from drive(1) tx k3 have "take 2 t1 = [CHR '':'', backslash]"
      by (simp add: take_Cons')
    then have "litMatches False [CHR '':'', backslash] (drop 1 tx)"
      using tx kl k3 by (simp add: lit2)
    then show ?thesis using tx drive(2,3) r k3
      by (simp add: pathPrefix_def wordBoundaryBefore_def)
  next
    case home
    from home lk have k2: "k = 2" by simp
    from take_hd[OF home] obtain t1 where tx: "tx = CHR ''~'' # t1" ..
    have "litMatches False ''~/'' tx" using home k2 kl by (simp add: lit2)
    then show ?thesis using tx not_letter_path r k2 by (simp add: pathPrefix_def)
  next
    case up
    from up lk have k3: "k = 3" by simp
    from take_hd[OF up] obtain t1 where tx: "tx = CHR ''.'' # t1" ..
    have l3: "litMatches False ''../'' tx" using up k3 kl by (simp add: lit3)
    have "take 2 (take 3 tx) = ''..''" using up k3 by simp
    then have "take 2 tx = ''..''" by simp
    then have "\<not> litMatches False ''~/'' tx" by (simp add: lit2)
    then show ?thesis using tx not_letter_path r k3 l3 by (simp add: pathPrefix_def)
  next
    case here
    from here lk have k2: "k = 2" by simp
    from take_hd[OF here] obtain t1 where tx: "tx = CHR ''.'' # t1" ..
    have l2: "litMatches False ''./'' tx" using here k2 kl by (simp add: lit2)
    have t2: "take 2 tx = ''./''" using here k2 by simp
    then have n1: "\<not> litMatches False ''~/'' tx" by (simp add: lit2)
    have t23: "take 2 (take 3 tx) = ''./''" using t2 by simp
    have "take 3 tx \<noteq> ''../''"
    proof
      assume "take 3 tx = ''../''"
      then have "take 2 (take 3 tx) = ''..''" by (simp only:) simp
      with t23 show False by simp
    qed
    then have n2: "\<not> litMatches False ''../'' tx" by (simp add: lit3)
    show ?thesis using tx not_letter_path r k2 l2 n1 n2 by (simp add: pathPrefix_def)
  qed
qed

lemma nonterm_chars:
  "\<not> isTerminator (CHR '':'')" "\<not> isTerminator (CHR ''/'')" "\<not> isTerminator backslash"
  "\<not> isTerminator (CHR ''~'')" "\<not> isTerminator (CHR ''.'')"
  by code_simp+

lemma letters_http: "isLetter (CHR ''h'')" "isLetter (CHR ''t'')" "isLetter (CHR ''p'')"
  "isLetter (CHR ''s'')"
  by code_simp+

lemma litMatches_letters_nonterm:
  assumes "litMatches True lit p" "\<forall>l\<in>set lit. isLetter l" "length lit = n"
  shows "\<forall>c\<in>set (take n p). \<not> isTerminator c"
  unfolding assms(3)[symmetric]
proof
  fix c assume "c \<in> set (take (length lit) p)"
  then obtain i where i: "i < length (take (length lit) p)" and c: "c = take (length lit) p ! i"
    by (metis in_set_conv_nth)
  from assms(1) have eq: "map toUpperChar (take (length lit) p) = map toUpperChar lit"
    by (simp add: litMatches_def toUpperCase_def)
  then have len: "length (take (length lit) p) = length lit" by (metis length_map)
  from eq i len have "toUpperChar (take (length lit) p ! i) = toUpperChar (lit ! i)"
    by (metis nth_map)
  moreover have "isLetter (lit ! i)" using assms(2) i len by simp
  ultimately show "\<not> isTerminator c" using c upper_letter_nonterm by blast
qed

lemma urlHead_nonterm:
  assumes "urlHead p"
  shows "\<forall>c\<in>set p. \<not> isTerminator c"
proof -
  from assms have h: "litMatches True ''http'' p" by (simp add: urlHead_def)
  have a: "\<forall>c\<in>set (take 4 p). \<not> isTerminator c"
    by (rule litMatches_letters_nonterm[OF h]) (simp_all add: letters_http)
  have b: "\<forall>c\<in>set (drop 4 p). \<not> isTerminator c"
  proof (cases "drop 4 p = ''://''")
    case True
    then show ?thesis by (simp add: nonterm_chars)
  next
    case False
    with assms have s: "litMatches True ''s'' (drop 4 p)" and d: "drop 5 p = ''://''"
      by (auto simp: urlHead_def)
    have 1: "\<forall>c\<in>set (take 1 (drop 4 p)). \<not> isTerminator c"
      by (rule litMatches_letters_nonterm[OF s]) (simp_all add: letters_http)
    have 2: "\<forall>c\<in>set (drop 1 (drop 4 p)). \<not> isTerminator c"
      using d by (simp add: nonterm_chars)
    have "drop 4 p = take 1 (drop 4 p) @ drop 1 (drop 4 p)"
      by (simp only: append_take_drop_id)
    then have "set (drop 4 p) = set (take 1 (drop 4 p)) \<union> set (drop 1 (drop 4 p))"
      by (metis set_append)
    then show ?thesis using 1 2 by blast
  qed
  have "set p = set (take 4 p) \<union> set (drop 4 p)" by (metis append_take_drop_id set_append)
  then show ?thesis using a b by blast
qed

lemma pathHead_nonterm:
  assumes "pathHead prev p"
  shows "\<forall>c\<in>set p. \<not> isTerminator c"
proof -
  from assms consider
      (drive) c where "p = c # [CHR '':'', backslash]" "isLetter c"
    | (home) "p = ''~/''" | (up) "p = ''../''" | (here) "p = ''./''"
    by (auto simp: pathHead_def split: list.splits)
  then show ?thesis
  proof cases
    case drive
    then show ?thesis by (simp add: nonterm_chars isLetter_nonterm)
  qed (simp_all add: nonterm_chars)
qed

text \<open>
  A match made of a part in front and the greedy run: it is not empty, lies in the
  text, holds no terminator, and ends at the end of the text or in front of a
  terminator.
\<close>

lemma headed_match:
  assumes "k < length tx" "\<forall>c\<in>set (take k tx). \<not> isTerminator c" "\<not> isTerminator (tx ! k)"
  shows "0 < k + runLength (drop k tx) \<and> k + runLength (drop k tx) \<le> length tx
       \<and> (\<forall>c\<in>set (take (k + runLength (drop k tx)) tx). \<not> isTerminator c)
       \<and> (k + runLength (drop k tx) < length tx \<longrightarrow> isTerminator (tx ! (k + runLength (drop k tx))))"
proof -
  let ?r = "runLength (drop k tx)"
  have r0: "0 < ?r" using assms(1,3) runLength_pos_drop by simp
  have rl: "?r \<le> length (drop k tx)" by (rule runLength_le)
  then have le: "k + ?r \<le> length tx" using assms(1) by simp
  have "take (k + ?r) tx = take k tx @ take ?r (drop k tx)" by (simp add: take_add)
  then have nt: "\<forall>c\<in>set (take (k + ?r) tx). \<not> isTerminator c"
    using assms(2) run_nonterm[of _ "drop k tx"] by auto
  have st: "isTerminator (tx ! (k + ?r))" if "k + ?r < length tx"
  proof -
    from that have "?r < length (drop k tx)" by simp
    then have "isTerminator (drop k tx ! ?r)" by (rule run_stops)
    then show ?thesis using that by simp
  qed
  from r0 le nt st show ?thesis by simp
qed

lemma matchUrlAt_props:
  assumes "matchUrlAt tx = Some n"
  shows "0 < n \<and> n \<le> length tx \<and> (\<forall>c\<in>set (take n tx). \<not> isTerminator c)
       \<and> (n < length tx \<longrightarrow> isTerminator (tx ! n))"
proof -
  from assms obtain k where k: "urlPrefix tx = Some k" and n: "n = k + runLength (drop k tx)"
    by (auto simp: matchUrlAt_def split: option.splits)
  from k have "k < length tx" "urlHead (take k tx)" "\<not> isTerminator (tx ! k)"
    using urlPrefix_iff by blast+
  then show ?thesis using headed_match[of k tx] urlHead_nonterm n by blast
qed

lemma matchPathAt_props:
  assumes "matchPathAt prev tx = Some n"
  shows "0 < n \<and> n \<le> length tx \<and> (\<forall>c\<in>set (take n tx). \<not> isTerminator c)
       \<and> (n < length tx \<longrightarrow> isTerminator (tx ! n))"
proof -
  from assms obtain k where k: "pathPrefix prev tx = Some k" and n: "n = k + runLength (drop k tx)"
    by (auto simp: matchPathAt_def split: option.splits)
  from k have "k < length tx" "pathHead prev (take k tx)" "\<not> isTerminator (tx ! k)"
    using pathPrefix_iff by blast+
  then show ?thesis using headed_match[of k tx] pathHead_nonterm n by blast
qed

text \<open>
  A match of exactly \<open>u\<close> in \<open>u @ b\<close> is a match of \<open>u\<close> in \<open>u @ b'\<close> as well, when \<open>b'\<close>
  is empty or starts with a terminator.
\<close>

lemma matchUrlAt_transport:
  assumes "matchUrlAt (u @ b) = Some (length u)" "b' = [] \<or> isTerminator (hd b')"
  shows "matchUrlAt (u @ b') = Some (length u)"
proof -
  from assms(1) obtain k where k: "urlPrefix (u @ b) = Some k"
    and n: "length u = k + runLength (drop k (u @ b))"
    by (auto simp: matchUrlAt_def simp del: drop_append split: option.splits)
  from k have p: "k < length (u @ b)" "urlHead (take k (u @ b))" "\<not> isTerminator ((u @ b) ! k)"
    using urlPrefix_iff by blast+
  then have "0 < runLength (drop k (u @ b))" using runLength_pos_drop by blast
  then have ku: "k < length u" using n by linarith
  have "k < length (u @ b') \<and> urlHead (take k (u @ b')) \<and> \<not> isTerminator ((u @ b') ! k)"
    using p ku by (simp add: nth_append)
  then have k': "urlPrefix (u @ b') = Some k" using urlPrefix_iff by blast
  have dk: "drop k (u @ b) = drop k u @ b" using ku by simp
  have "length u = k + runLength (drop k u @ b)" using n unfolding dk .
  then have "runLength (drop k u @ b) = length u - k" by linarith
  then have "runLength (drop k u @ b) = length (drop k u)" by simp
  then have "runLength (drop k u @ b') = length (drop k u)"
    using assms(2) by (rule runLength_append_exact)
  then show ?thesis using k' ku by (simp add: matchUrlAt_def)
qed

lemma pathPrefix_prev:
  assumes "wordBoundaryBefore prev = wordBoundaryBefore prev'"
  shows "pathPrefix prev tx = pathPrefix prev' tx"
proof -
  have "pathHead prev p = pathHead prev' p" for p using assms by (simp add: pathHead_def)
  then have "(pathPrefix prev tx = Some k) = (pathPrefix prev' tx = Some k)" for k
    by (simp add: pathPrefix_iff)
  then show ?thesis by (metis option.exhaust)
qed

lemma matchPathAt_transport:
  assumes "matchPathAt prev (u @ b) = Some (length u)" "b' = [] \<or> isTerminator (hd b')"
    and "wordBoundaryBefore prev = wordBoundaryBefore prev'"
  shows "matchPathAt prev' (u @ b') = Some (length u)"
proof -
  from assms(1) obtain k where k: "pathPrefix prev (u @ b) = Some k"
    and n: "length u = k + runLength (drop k (u @ b))"
    by (auto simp: matchPathAt_def simp del: drop_append split: option.splits)
  from k have p: "k < length (u @ b)" "pathHead prev (take k (u @ b))" "\<not> isTerminator ((u @ b) ! k)"
    using pathPrefix_iff by blast+
  then have "0 < runLength (drop k (u @ b))" using runLength_pos_drop by blast
  then have ku: "k < length u" using n by linarith
  have "k < length (u @ b') \<and> pathHead prev (take k (u @ b')) \<and> \<not> isTerminator ((u @ b') ! k)"
    using p ku by (simp add: nth_append)
  then have "pathPrefix prev (u @ b') = Some k" using pathPrefix_iff by blast
  then have k': "pathPrefix prev' (u @ b') = Some k" using pathPrefix_prev[OF assms(3)] by simp
  have dk: "drop k (u @ b) = drop k u @ b" using ku by simp
  have "length u = k + runLength (drop k u @ b)" using n unfolding dk .
  then have "runLength (drop k u @ b) = length u - k" by linarith
  then have "runLength (drop k u @ b) = length (drop k u)" by simp
  then have "runLength (drop k u @ b') = length (drop k u)"
    using assms(2) by (rule runLength_append_exact)
  then show ?thesis using k' ku by (simp add: matchPathAt_def)
qed

section \<open>The scans cover every match\<close>

text \<open>
  A scan with a matcher whose matches are non-empty, free of terminators and end in
  front of a terminator or at the end: whatever the matcher matches at some position of
  the text lies inside one of the ranges of the scan.  \<open>a\<close> is the text between the
  position of the scan and the match \<open>u\<close>.
\<close>

lemma scan_covers:
  assumes "\<forall>prev tx n. m prev tx = Some n \<longrightarrow>
                 0 < n \<and> n \<le> length tx \<and> (\<forall>c\<in>set (take n tx). \<not> isTerminator c)
                 \<and> (n < length tx \<longrightarrow> isTerminator (tx ! n))"
  shows "\<forall>a. rem = a @ u @ b \<longrightarrow> m (if a = [] then prev else Some (last a)) (u @ b) = Some (length u)
         \<longrightarrow> (\<exists>rg\<in>set (matchAllRanges m prev pos rem).
                pos \<le> fst rg \<and> fst rg \<le> pos + int (length a)
                \<and> pos + int (length a) + int (length u) \<le> snd rg)"
  using assms
proof (induction m prev pos rem rule: matchAllRanges.induct)
  case (1 m prev pos)
  show ?case
  proof (intro allI impI)
    fix a assume e: "[] = a @ u @ b"
      and t: "m (if a = [] then prev else Some (last a)) (u @ b) = Some (length u)"
    from t "1.prems" have "0 < length u" by blast
    with e show "\<exists>rg\<in>set (matchAllRanges m prev pos []).
                pos \<le> fst rg \<and> fst rg \<le> pos + int (length a)
                \<and> pos + int (length a) + int (length u) \<le> snd rg" by simp
  qed
next
  case (2 m prev pos c cs)
  note M = "2.prems"
  show ?case
  proof (intro allI impI)
    fix a assume e: "c # cs = a @ u @ b"
      and t: "m (if a = [] then prev else Some (last a)) (u @ b) = Some (length u)"
    from t M have u0: "0 < length u" and unt: "\<forall>x\<in>set (take (length u) (u @ b)). \<not> isTerminator x"
      by blast+
    then have unt': "\<forall>x\<in>set u. \<not> isTerminator x" by simp
    show "\<exists>rg\<in>set (matchAllRanges m prev pos (c # cs)).
                pos \<le> fst rg \<and> fst rg \<le> pos + int (length a)
                \<and> pos + int (length a) + int (length u) \<le> snd rg"
    proof (cases "m prev (c # cs)")
      case None
      have "a \<noteq> []"
      proof
        assume "a = []"
        with e t None show False by simp
      qed
      then obtain a' where a: "a = c # a'" and cs: "cs = a' @ u @ b"
        using e by (cases a) auto
      have pv: "(if a' = [] then Some c else Some (last a')) = (if a = [] then prev else Some (last a))"
        using a by simp
      have t': "m (if a' = [] then Some c else Some (last a')) (u @ b) = Some (length u)"
        using t unfolding pv .
      from "2.IH"(1)[OF None M, rule_format, OF cs t']
      obtain rg where "rg \<in> set (matchAllRanges m (Some c) (pos + 1) cs)"
        "pos + 1 \<le> fst rg" "fst rg \<le> pos + 1 + int (length a')"
        "pos + 1 + int (length a') + int (length u) \<le> snd rg"
        by blast
      then show ?thesis using None a by (intro bexI[of _ rg]) auto
    next
      case (Some n)
      from Some M have n0: "0 < n" and nl: "n \<le> length (c # cs)"
        and stop: "n < length (c # cs) \<longrightarrow> isTerminator ((c # cs) ! n)" by blast+
      then obtain k where k: "n = Suc k" by (cases n) auto
      show ?thesis
      proof (cases "length a < n")
        case True
        have "length a + length u \<le> n"
        proof (rule ccontr)
          assume "\<not> length a + length u \<le> n"
          then have lt: "n < length a + length u" by simp
          then have "n < length (c # cs)" using e by (metis length_append trans_less_add1 add.assoc)
          with stop have "isTerminator ((c # cs) ! n)" by simp
          moreover have "(c # cs) ! n = u ! (n - length a)"
          proof -
            have "n - length a < length u" using True lt by linarith
            moreover have "\<not> n < length a" using True by simp
            ultimately have "(a @ u @ b) ! n = u ! (n - length a)" by (simp add: nth_append)
            then show ?thesis using e by simp
          qed
          moreover have "u ! (n - length a) \<in> set u" using True lt by simp
          ultimately show False using unt' by metis
        qed
        then have "pos + int (length a) + int (length u) \<le> pos + 1 + int k" using k by simp
        then show ?thesis using Some k by (intro bexI[of _ "(pos, pos + 1 + int k)"]) auto
      next
        case False
        then have ge: "Suc k \<le> length a" using k by simp
        let ?a' = "drop (Suc k) a"
        have "drop (Suc k) (c # cs) = ?a' @ u @ b" using e ge by simp
        then have cs: "drop k cs = ?a' @ u @ b" by simp
        have "take (Suc k) (c # cs) = take (Suc k) a" using e ge by simp
        then have tk: "c # take k cs = take (Suc k) a" by simp
        have pv: "(if ?a' = [] then Some (last (c # take k cs)) else Some (last ?a'))
                  = (if a = [] then prev else Some (last a))"
        proof (cases "?a' = []")
          case True
          then have "a = take (Suc k) a" using ge by simp
          then have "a = c # take k cs" using tk by simp
          then show ?thesis using True by auto
        next
          case False
          then have "a \<noteq> []" by auto
          moreover have "last a = last ?a'" using False by simp
          ultimately show ?thesis using False by simp
        qed
        have t': "m (if ?a' = [] then Some (last (c # take k cs)) else Some (last ?a')) (u @ b)
                  = Some (length u)"
          using t unfolding pv .
        from "2.IH"(3)[OF Some k M, rule_format, OF cs t']
        obtain rg where rg: "rg \<in> set (matchAllRanges m (Some (last (c # take k cs)))
                                 (pos + 1 + int k) (drop k cs))"
          and b: "pos + 1 + int k \<le> fst rg" "fst rg \<le> pos + 1 + int k + int (length ?a')"
          "pos + 1 + int k + int (length ?a') + int (length u) \<le> snd rg"
          by blast
        have "int (length ?a') = int (length a) - 1 - int k" using ge by simp
        with b have "pos \<le> fst rg \<and> fst rg \<le> pos + int (length a)
                \<and> pos + int (length a) + int (length u) \<le> snd rg" by simp
        then show ?thesis using Some k rg by (intro bexI[of _ rg]) auto
      qed
    qed
  qed
qed

lemma detected_range:
  assumes "matchUrlAt (u @ b) = Some (length u) \<or> matchPathAt (prevChar a) (u @ b) = Some (length u)"
  shows "\<exists>rg\<in>set (urlRanges (a @ u @ b) @ pathRanges (a @ u @ b)).
           0 \<le> fst rg \<and> fst rg \<le> int (length a) \<and> int (length a) + int (length u) \<le> snd rg"
  using assms
proof
  assume t: "matchUrlAt (u @ b) = Some (length u)"
  have M: "\<forall>prev tx n. (\<lambda>prev. matchUrlAt) prev tx = Some n \<longrightarrow>
                 0 < n \<and> n \<le> length tx \<and> (\<forall>c\<in>set (take n tx). \<not> isTerminator c)
                 \<and> (n < length tx \<longrightarrow> isTerminator (tx ! n))"
    using matchUrlAt_props by blast
  from scan_covers[OF M, of "a @ u @ b" u b None 0, rule_format, of a] t
  show ?thesis by (auto simp: urlRanges_def)
next
  assume t: "matchPathAt (prevChar a) (u @ b) = Some (length u)"
  have M: "\<forall>prev tx n. matchPathAt prev tx = Some n \<longrightarrow>
                 0 < n \<and> n \<le> length tx \<and> (\<forall>c\<in>set (take n tx). \<not> isTerminator c)
                 \<and> (n < length tx \<longrightarrow> isTerminator (tx ! n))"
    using matchPathAt_props by blast
  from scan_covers[OF M, of "a @ u @ b" u b None 0, rule_format, of a] t
  show ?thesis by (auto simp: pathRanges_def prevChar_def)
qed

text \<open>Where the piece of a merged range stands among the pieces of the loop.\<close>

lemma rangePieces_locate:
  assumes "mergedInv ms" "0 \<le> cursor" "\<forall>x\<in>set ms. cursor \<le> fst x" "m \<in> set ms"
  shows "\<exists>pre post. rangePieces tx ms cursor = pre @ Protected (slice tx (fst m) (snd m)) # post
           \<and> concat (map pieceText pre) = take (nat (fst m) - nat cursor) (drop (nat cursor) tx)"
  using assms
proof (induction ms arbitrary: cursor)
  case Nil
  then show ?case by simp
next
  case (Cons x ms)
  obtain start en where x: "x = (start, en)" by (cases x)
  have se: "start < en" using Cons.prems(1) x by (simp add: mergedInv_def)
  have cs: "cursor \<le> start" using Cons.prems(3) x by simp
  have gap: "slice tx cursor start = take (nat start - nat cursor) (drop (nat cursor) tx)"
    using slice_nonneg[of cursor start tx] Cons.prems(2) cs by simp
  let ?g = "if start > cursor then [Gap (slice tx cursor start)] else []"
  have gt: "concat (map pieceText ?g) = take (nat start - nat cursor) (drop (nat cursor) tx)"
    using gap cs by auto
  show ?case
  proof (cases "m = x")
    case True
    have "rangePieces tx (x # ms) cursor
          = ?g @ Protected (slice tx (fst m) (snd m)) # rangePieces tx ms (max cursor en)"
      using True x by simp
    then show ?thesis using gt True x by (metis fst_conv)
  next
    case False
    then have mm: "m \<in> set ms" using Cons.prems(4) by simp
    have inv: "mergedInv ms" using Cons.prems(1) by (simp add: mergedInv_def)
    have later: "\<forall>y\<in>set ms. en < fst y" using Cons.prems(1) x by (auto simp: mergedInv_def)
    then have nxt: "\<forall>y\<in>set ms. max cursor en \<le> fst y" using se cs by auto
    have nn: "0 \<le> max cursor en" using Cons.prems(2) by simp
    from Cons.IH[OF inv nn nxt mm] obtain pre post where
      rp: "rangePieces tx ms (max cursor en) = pre @ Protected (slice tx (fst m) (snd m)) # post"
      and pt: "concat (map pieceText pre) = take (nat (fst m) - nat (max cursor en)) (drop (nat (max cursor en)) tx)"
      by blast
    have mx: "max cursor en = en" using se cs by simp
    have em: "en < fst m" using later mm by simp
    have prot: "slice tx start en = take (nat en - nat start) (drop (nat start) tx)"
      using slice_nonneg[of start en tx] Cons.prems(2) cs se by simp
    let ?c = "nat cursor" and ?s = "nat start" and ?e = "nat en" and ?f = "nat (fst m)"
    have ord: "?c \<le> ?s" "?s \<le> ?e" "?e \<le> ?f" using cs se em Cons.prems(2) by auto
    have "take (?s - ?c) (drop ?c tx) @ take (?e - ?s) (drop ?s tx) @ take (?f - ?e) (drop ?e tx)
          = take (?f - ?c) (drop ?c tx)"
    proof -
      have 1: "take (?e - ?s) (drop ?s tx) @ take (?f - ?e) (drop ?e tx) = take (?f - ?s) (drop ?s tx)"
      proof -
        have "take (?f - ?s) (drop ?s tx)
              = take (?e - ?s) (drop ?s tx) @ take (?f - ?s - (?e - ?s)) (drop (?e - ?s) (drop ?s tx))"
          using ord by (metis take_add le_add_diff_inverse diff_le_mono)
        then show ?thesis using ord by simp
      qed
      have "take (?f - ?c) (drop ?c tx)
            = take (?s - ?c) (drop ?c tx) @ take (?f - ?c - (?s - ?c)) (drop (?s - ?c) (drop ?c tx))"
        using ord by (metis take_add le_add_diff_inverse diff_le_mono le_trans)
      then show ?thesis using ord 1 by simp
    qed
    then have "concat (map pieceText (?g @ Protected (slice tx start en) # pre))
               = take (?f - ?c) (drop ?c tx)"
      using gt prot pt mx by simp
    moreover have "rangePieces tx (x # ms) cursor
          = (?g @ Protected (slice tx start en) # pre) @ Protected (slice tx (fst m) (snd m)) # post"
      using x rp by simp
    ultimately show ?thesis by blast
  qed
qed

text \<open>
  In a segment, whatever the URL or path pattern matches lies inside one protected
  piece, at the place where it stands in the segment.
\<close>

lemma segment_located:
  assumes "matchUrlAt (u @ b) = Some (length u) \<or> matchPathAt (prevChar a) (u @ b) = Some (length u)"
  shows "\<exists>pre post p1 p2. segmentPieces (a @ u @ b) = pre @ Protected (p1 @ u @ p2) # post
           \<and> a = concat (map pieceText pre) @ p1"
proof -
  let ?S = "a @ u @ b"
  let ?ranges = "urlRanges ?S @ pathRanges ?S"
  let ?ms = "sanitizeRanges ?ranges"
  have u0: "0 < length u" using assms matchUrlAt_props matchPathAt_props by blast
  from detected_range[OF assms] obtain rg where rg: "rg \<in> set ?ranges"
    and r0: "0 \<le> fst rg" and r1: "fst rg \<le> int (length a)"
    and r2: "int (length a) + int (length u) \<le> snd rg" by blast
  have ne: "?ranges \<noteq> []" using rg by auto
  have "clampRange rg = rg" using r0 r1 r2 by (simp add: clampRange_def)
  then have "rg \<in> set (map clampRange ?ranges)" using rg by (metis image_eqI set_map)
  moreover have "fst rg < snd rg" using r1 r2 u0 by linarith
  ultimately have "within rg ?ms" using sanitizeRanges_props[of ?ranges] by blast
  then obtain m where m: "m \<in> set ?ms" and m1: "fst m \<le> fst rg" and m2: "snd rg \<le> snd m"
    by (auto simp: within_def)
  have inv: "mergedInv ?ms" using sanitizeRanges_props by blast
  have nn: "\<forall>x\<in>set ?ms. 0 \<le> fst x" using sanitizeRanges_nonneg by blast
  from rangePieces_locate[OF inv _ nn m, of ?S] obtain pre post where
    rp: "rangePieces ?S ?ms 0 = pre @ Protected (slice ?S (fst m) (snd m)) # post"
    and pt: "concat (map pieceText pre) = take (nat (fst m)) ?S" by auto
  let ?s = "nat (fst m)" and ?e = "nat (snd m)"
  have m0: "0 \<le> fst m" using nn m by blast
  have sa: "?s \<le> length a" using m1 r1 m0 by linarith
  have ea: "length a + length u \<le> ?e" using m2 r2 by linarith
  have "slice ?S (fst m) (snd m) = take (?e - ?s) (drop ?s ?S)"
    using slice_nonneg[of "fst m" "snd m" ?S] m0 m1 m2 r1 r2 by linarith
  also have "\<dots> = take (?e - ?s) (drop ?s a @ u @ b)" using sa by simp
  also have "\<dots> = drop ?s a @ u @ take (?e - length a - length u) b"
  proof -
    have "length (drop ?s a) = length a - ?s" by simp
    then have "?e - ?s - length (drop ?s a) = ?e - length a" using sa ea by linarith
    then have "take (?e - ?s) (drop ?s a @ u @ b) = drop ?s a @ take (?e - length a) (u @ b)"
      using sa ea by simp
    moreover have "take (?e - length a) (u @ b) = u @ take (?e - length a - length u) b"
      using ea by simp
    ultimately show ?thesis by simp
  qed
  finally have sl: "slice ?S (fst m) (snd m) = drop ?s a @ u @ take (?e - length a - length u) b" .
  have "segmentPieces ?S = rangePieces ?S ?ms 0"
    using ne unfolding segmentPieces_def outsidePieces_def by (simp only: if_False)
  then have "segmentPieces ?S = pre @ Protected (drop ?s a @ u @ take (?e - length a - length u) b) # post"
    using rp sl by (simp only:)
  moreover have "a = concat (map pieceText pre) @ drop ?s a" using pt sa by simp
  ultimately show ?thesis by blast
qed

end
